theory Spec2Isabelle
  imports Main "HOL-Library.Word"
begin

section \<open>Sodium::FileCryptor: blockwise authenticated file encryption\<close>

text \<open>
  A shallow embedding of \<^verbatim>\<open>src/include/filecryptor.h\<close>: the class
  \<^verbatim>\<open>Sodium::FileCryptor\<close>, its constructor and its two member functions
  \<^verbatim>\<open>encrypt\<close> and \<^verbatim>\<open>decrypt\<close>.

  Conventions of the embedding.
  \<^item> \<^verbatim>\<open>data_t\<close> (a vector of unsigned char) is a list of 8-bit words; a
    \<^verbatim>\<open>Key\<close> is the list of its bytes.
  \<^item> \<^verbatim>\<open>std::size_t\<close> values are natural numbers. The two places where the
    source computes with them across signedness are written out on 64 bits
    (\<open>neg_size_t\<close>, \<open>size_minus_off\<close>).
  \<^item> Every \<^verbatim>\<open>throw\<close> of the source is a constructor of \<open>error\<close>; a function
    that can throw returns \<open>Inl\<close> of it, together with the sink and the list of the
    Engine invocations as they stand at the throw.
  \<^item> The two \<^verbatim>\<open>while\<close> loops are functions into \<open>option\<close>, where \<open>None\<close>
    stands for a loop that never ends.
  \<^item> The collaborators that the header includes but that are not part of it
    (\<^verbatim>\<open>CryptorAEAD\<close>, \<^verbatim>\<open>Nonce\<close>, \<^verbatim>\<open>Key\<close>, libsodium's generic
    hash and its size constants) are the fields of a record \<open>sodium\<close>, a parameter
    of every function.
\<close>

type_synonym data_t = "8 word list"

subsection \<open>Errors\<close>

text \<open>One constructor per \<^verbatim>\<open>throw std::runtime_error\<close> of the source, named after
  its message, and one for an exception that leaves \<^verbatim>\<open>sc_aead_.encrypt\<close> or
  \<^verbatim>\<open>sc_aead_.decrypt\<close>.\<close>

datatype error =
    Wrong_key_size
  | Wrong_blocksize
  | Hash_key_too_small
  | Hash_key_too_big
  | Encrypt_error_writing_full_chunk
  | Encrypt_error_writing_final_chunk
  | Encrypt_error_writing_hash
  | Decrypt_cant_seek_to_the_end_for_hash
  | Decrypt_read_partial_hash
  | Decrypt_error_writing_full_chunk
  | Decrypt_error_writing_final_chunk
  | Decrypt_hash_mismatch
  | Engine_throws

subsection \<open>Collaborators\<close>

text \<open>
  \<open>'n\<close> is the type of \<^verbatim>\<open>Nonce<NONCESIZE_AEAD>\<close>. \<open>aead_encrypt\<close> and
  \<open>aead_decrypt\<close> are \<^verbatim>\<open>CryptorAEAD::encrypt\<close> and
  \<^verbatim>\<open>CryptorAEAD::decrypt\<close> with the arguments in the source's order (header,
  text, key, nonce); \<open>None\<close> is an exception. The streaming hash of libsodium
  (\<^verbatim>\<open>crypto_generichash_init/update/final\<close>) is the function \<open>generichash\<close> of
  the key, the output size and the concatenation of all the updates; the state
  between the calls is the bytes fed so far.
\<close>

record 'n sodium =
  MACSIZE :: nat
  KEYSIZE_AEAD :: nat
  HASHKEYSIZE_MIN :: nat
  HASHKEYSIZE_MAX :: nat
  HASHSIZE_MIN :: nat
  HASHSIZE_MAX :: nat
  aead_encrypt :: "data_t \<Rightarrow> data_t \<Rightarrow> data_t \<Rightarrow> 'n \<Rightarrow> data_t option"
  aead_decrypt :: "data_t \<Rightarrow> data_t \<Rightarrow> data_t \<Rightarrow> 'n \<Rightarrow> data_t option"
  increment :: "'n \<Rightarrow> 'n"
  generichash :: "data_t \<Rightarrow> nat \<Rightarrow> data_t \<Rightarrow> data_t"

subsection \<open>The class and its constructor\<close>

text \<open>The data members \<^verbatim>\<open>key_\<close>, \<^verbatim>\<open>hashkey_\<close>, \<^verbatim>\<open>nonce_\<close>,
  \<^verbatim>\<open>header_\<close>, \<^verbatim>\<open>blocksize_\<close> and \<^verbatim>\<open>hashsize_\<close>; a name cannot end
  with an underscore here, so each carries the prefix \<open>fc\<close> instead. The member
  \<^verbatim>\<open>sc_aead_\<close> has no state: it is the two Engine functions of \<open>sodium\<close>.\<close>

record 'n FileCryptor =
  fc_key :: data_t
  fc_hashkey :: data_t
  fc_nonce :: 'n
  fc_header :: data_t
  fc_blocksize :: nat
  fc_hashsize :: nat

definition FileCryptor ::
  "'n sodium \<Rightarrow> data_t \<Rightarrow> 'n \<Rightarrow> nat \<Rightarrow> data_t \<Rightarrow> nat \<Rightarrow> error + 'n FileCryptor" where
  "FileCryptor S key nonce blocksize hashkey hashsize =
     (if length key \<noteq> KEYSIZE_AEAD S then Inl Wrong_key_size
      else if blocksize < 1 then Inl Wrong_blocksize
      else if length hashkey < HASHKEYSIZE_MIN S then Inl Hash_key_too_small
      else if length hashkey > HASHKEYSIZE_MAX S then Inl Hash_key_too_big
      else Inr \<lparr>fc_key = key, fc_hashkey = hashkey, fc_nonce = nonce, fc_header = [],
                fc_blocksize = blocksize, fc_hashsize = hashsize\<rparr>)"

subsection \<open>Streams\<close>

text \<open>
  An input stream is its bytes, the get position, the two state bits the code
  can observe and the count of the last unformatted read. \<^verbatim>\<open>operator bool\<close>
  and \<^verbatim>\<open>operator!\<close> test \<open>failbit\<close>.
\<close>

record istream =
  content :: data_t
  gpos :: nat
  failbit :: bool
  eofbit :: bool
  gcount :: nat

text \<open>\<^verbatim>\<open>istr.read(buf.data(), n)\<close>: a stream that is not good fails at once and
  reads nothing; otherwise the bytes that are there, up to \<open>n\<close>, overwrite the
  front of the buffer, and a short read sets both bits. The buffers of the code
  have \<open>n\<close> bytes at every read whose result is used.\<close>

definition read :: "data_t \<Rightarrow> nat \<Rightarrow> istream \<Rightarrow> data_t \<times> istream" where
  "read buf n s =
     (if failbit s \<or> eofbit s then (buf, s\<lparr>failbit := True, gcount := 0\<rparr>)
      else let got = take n (drop (gpos s) (content s))
           in (got @ drop (length got) buf,
               s\<lparr>gpos := gpos s + length got, failbit := length got < n,
                 eofbit := length got < n, gcount := length got\<rparr>))"

text \<open>\<^verbatim>\<open>tellg()\<close>: \<open>-1\<close> on a stream that is not good.\<close>

definition tellg :: "istream \<Rightarrow> int \<times> istream" where
  "tellg s =
     (if failbit s \<or> eofbit s then (- 1, s\<lparr>failbit := True\<rparr>)
      else (int (gpos s), s))"

datatype seekdir = Beg | End

text \<open>\<^verbatim>\<open>seekg(off, dir)\<close>: clears \<open>eofbit\<close> first; does nothing on a failed
  stream; a target before the start of the file is a failure.\<close>

definition seekg :: "int \<Rightarrow> seekdir \<Rightarrow> istream \<Rightarrow> istream" where
  "seekg off dir s0 =
     (let s = s0\<lparr>eofbit := False\<rparr>
      in if failbit s then s
         else let target = (case dir of Beg \<Rightarrow> off
                                     | End \<Rightarrow> int (length (content s)) + off)
              in if target < 0 then s\<lparr>failbit := True\<rparr>
                 else s\<lparr>gpos := nat target\<rparr>)"

text \<open>An output stream is what has been written, its failure bit, and the room
  that is left on the device (\<open>None\<close>: no limit). A write that does not fit
  writes what fits and fails.\<close>

record ostream =
  written :: data_t
  obad :: bool
  room :: "nat option"

definition "write" :: "data_t \<Rightarrow> ostream \<Rightarrow> ostream" where
  "write bs s =
     (if obad s then s
      else case room s of
             None \<Rightarrow> s\<lparr>written := written s @ bs\<rparr>
           | Some r \<Rightarrow>
               if length bs \<le> r
               then s\<lparr>written := written s @ bs, room := Some (r - length bs)\<rparr>
               else s\<lparr>written := written s @ take r bs, obad := True, room := Some 0\<rparr>)"

text \<open>\<^verbatim>\<open>v.resize(n)\<close> on a vector of bytes.\<close>

definition resize :: "nat \<Rightarrow> data_t \<Rightarrow> data_t" where
  "resize n v = take n v @ replicate (n - length v) 0"

text \<open>\<^verbatim>\<open>-hashsize_\<close> as the \<^verbatim>\<open>off_type\<close> argument of \<^verbatim>\<open>seekg\<close>: the
  negation is unsigned, on 64 bits, and is then read as a signed offset.\<close>

definition neg_size_t :: "nat \<Rightarrow> int" where
  "neg_size_t n = sint (- (word_of_nat n :: 64 word))"

text \<open>\<^verbatim>\<open>ciphertext.size() - (current_pos - hash_pos)\<close>: the difference of the
  two positions is a signed offset, the subtraction from the size is unsigned
  on 64 bits.\<close>

definition size_minus_off :: "nat \<Rightarrow> int \<Rightarrow> nat" where
  "size_minus_off n d = nat ((int n - d) mod 2 ^ 64)"

text \<open>What a run leaves behind: the sink, and the Engine invocations in order,
  each with the buffer and the running nonce it was given.\<close>

record 'n world =
  ostr :: ostream
  engine_calls :: "(data_t \<times> 'n) list"

definition invoke :: "data_t \<Rightarrow> 'n \<Rightarrow> 'n world \<Rightarrow> 'n world" where
  "invoke buf n w = w\<lparr>engine_calls := engine_calls w @ [(buf, n)]\<rparr>"

definition put :: "data_t \<Rightarrow> 'n world \<Rightarrow> 'n world" where
  "put bs w = w\<lparr>ostr := write bs (ostr w)\<rparr>"

subsection \<open>FileCryptor::encrypt\<close>

text \<open>
  The loop \<^verbatim>\<open>while (istr.read(plaintext.data(), blocksize_))\<close>. Its variables
  are the buffer \<open>plaintext\<close>, \<open>running_nonce\<close>, the stream and the hash
  \<open>state\<close>. It leaves with \<open>Inr\<close> of them when the read fails, and with
  \<open>Inl\<close> at a throw.
\<close>

partial_function (option) encrypt_loop ::
  "'n sodium \<Rightarrow> 'n FileCryptor \<Rightarrow> data_t \<Rightarrow> 'n \<Rightarrow> istream \<Rightarrow> data_t \<Rightarrow> 'n world
   \<Rightarrow> ((error + data_t \<times> 'n \<times> istream \<times> data_t) \<times> 'n world) option" where
  "encrypt_loop S fc plaintext running_nonce istr state w =
     (let (plaintext1, istr1) = read plaintext (fc_blocksize fc) istr
      in if failbit istr1 then Some (Inr (plaintext1, running_nonce, istr1, state), w)
         else let w1 = invoke plaintext1 running_nonce w
              in case aead_encrypt S (fc_header fc) plaintext1 (fc_key fc) running_nonce of
                   None \<Rightarrow> Some (Inl Engine_throws, w1)
                 | Some ciphertext \<Rightarrow>
                     let running_nonce1 = increment S running_nonce;
                         w2 = put ciphertext w1
                     in if obad (ostr w2)
                        then Some (Inl Encrypt_error_writing_full_chunk, w2)
                        else encrypt_loop S fc plaintext1 running_nonce1 istr1
                               (state @ ciphertext) w2)"

declare encrypt_loop.simps [code]

text \<open>The code after the loop, up to the last \<^verbatim>\<open>crypto_generichash_update\<close>:
  the final partial chunk, if \<^verbatim>\<open>gcount()\<close> is not zero. The hash is written by
  \<open>encrypt\<close> below.\<close>

definition encrypt_final ::
  "'n sodium \<Rightarrow> 'n FileCryptor \<Rightarrow> data_t \<Rightarrow> 'n \<Rightarrow> istream \<Rightarrow> data_t \<Rightarrow> 'n world
   \<Rightarrow> (error + data_t) \<times> 'n world" where
  "encrypt_final S fc plaintext running_nonce istr state w =
     (let s = gcount istr
      in if s \<noteq> 0
         then let plaintext1 = (if s \<noteq> length plaintext then resize s plaintext
                                else plaintext);
                  w1 = invoke plaintext1 running_nonce w
              in case aead_encrypt S (fc_header fc) plaintext1 (fc_key fc) running_nonce of
                   None \<Rightarrow> (Inl Engine_throws, w1)
                 | Some ciphertext \<Rightarrow>
                     let w2 = put ciphertext w1
                     in if obad (ostr w2)
                        then (Inl Encrypt_error_writing_final_chunk, w2)
                        else (Inr (state @ ciphertext), w2)
         else (Inr state, w))"

definition encrypt ::
  "'n sodium \<Rightarrow> 'n FileCryptor \<Rightarrow> istream \<Rightarrow> 'n world \<Rightarrow> ((error + unit) \<times> 'n world) option" where
  "encrypt S fc istr w =
     (case encrypt_loop S fc (replicate (fc_blocksize fc) 0) (fc_nonce fc) istr [] w of
        None \<Rightarrow> None
      | Some (Inl e, w1) \<Rightarrow> Some (Inl e, w1)
      | Some (Inr (plaintext, running_nonce, istr1, state), w1) \<Rightarrow>
          (case encrypt_final S fc plaintext running_nonce istr1 state w1 of
             (Inl e, w2) \<Rightarrow> Some (Inl e, w2)
           | (Inr state1, w2) \<Rightarrow>
               let hash = generichash S (fc_hashkey fc) (fc_hashsize fc) state1;
                   w3 = put hash w2
               in if obad (ostr w3) then Some (Inl Encrypt_error_writing_hash, w3)
                  else Some (Inr (), w3)))"

subsection \<open>FileCryptor::decrypt\<close>

text \<open>
  The loop \<^verbatim>\<open>while (ifs.read(ciphertext.data(), MACSIZE + blocksize_) && !in_mac)\<close>.
  The read is done before \<open>in_mac\<close> is looked at. \<open>hash_pos\<close> is fixed
  before the loop.
\<close>

partial_function (option) decrypt_loop ::
  "'n sodium \<Rightarrow> 'n FileCryptor \<Rightarrow> int \<Rightarrow> data_t \<Rightarrow> 'n \<Rightarrow> bool \<Rightarrow> istream \<Rightarrow> data_t
   \<Rightarrow> 'n world
   \<Rightarrow> ((error + data_t \<times> 'n \<times> bool \<times> istream \<times> data_t) \<times> 'n world) option" where
  "decrypt_loop S fc hash_pos ciphertext running_nonce in_mac ifs state w =
     (let (ciphertext1, ifs1) = read ciphertext (MACSIZE S + fc_blocksize fc) ifs
      in if \<not> failbit ifs1 \<and> \<not> in_mac
         then let (current_pos, ifs2) = tellg ifs1;
                  (ciphertext2, in_mac1) =
                    (if current_pos > hash_pos
                     then (resize (size_minus_off (length ciphertext1)
                                     (current_pos - hash_pos)) ciphertext1, True)
                     else (ciphertext1, in_mac));
                  w1 = invoke ciphertext2 running_nonce w
              in case aead_decrypt S (fc_header fc) ciphertext2 (fc_key fc) running_nonce of
                   None \<Rightarrow> Some (Inl Engine_throws, w1)
                 | Some plaintext \<Rightarrow>
                     let running_nonce1 = increment S running_nonce;
                         w2 = put plaintext w1
                     in if obad (ostr w2)
                        then Some (Inl Decrypt_error_writing_full_chunk, w2)
                        else decrypt_loop S fc hash_pos ciphertext2 running_nonce1 in_mac1
                               ifs2 (state @ ciphertext2) w2
         else Some (Inr (ciphertext1, running_nonce, in_mac, ifs1, state), w))"

declare decrypt_loop.simps [code]

text \<open>The code after the loop, up to the last \<^verbatim>\<open>crypto_generichash_update\<close>:
  the final partial chunk.\<close>

definition decrypt_final ::
  "'n sodium \<Rightarrow> 'n FileCryptor \<Rightarrow> int \<Rightarrow> data_t \<Rightarrow> 'n \<Rightarrow> bool \<Rightarrow> istream \<Rightarrow> data_t
   \<Rightarrow> 'n world \<Rightarrow> (error + data_t) \<times> 'n world" where
  "decrypt_final S fc hash_pos ciphertext running_nonce in_mac ifs state w =
     (if \<not> in_mac
      then let s = gcount ifs
           in if s \<noteq> 0
              then let ciphertext1 = (if s \<noteq> length ciphertext then resize s ciphertext
                                      else ciphertext);
                       (current_pos, ifs1) = tellg ifs;
                       ciphertext2 =
                         (if current_pos > hash_pos
                          then resize (size_minus_off (length ciphertext1)
                                         (current_pos - hash_pos)) ciphertext1
                          else if current_pos = - 1
                          then (if length ciphertext1 > fc_hashsize fc
                                then resize (length ciphertext1 - fc_hashsize fc) ciphertext1
                                else [])
                          else ciphertext1);
                       w1 = invoke ciphertext2 running_nonce w
                   in case aead_decrypt S (fc_header fc) ciphertext2 (fc_key fc) running_nonce of
                        None \<Rightarrow> (Inl Engine_throws, w1)
                      | Some plaintext \<Rightarrow>
                          let w2 = put plaintext w1
                          in if obad (ostr w2)
                             then (Inl Decrypt_error_writing_final_chunk, w2)
                             else (Inr (state @ ciphertext2), w2)
              else (Inr state, w)
      else (Inr state, w))"

text \<open>The code before the loop: the saved hash is fetched from the end of the
  file, and the stream is put back at the start. The result is \<open>hash_pos\<close>,
  \<open>hash_saved\<close> and the stream.\<close>

definition decrypt_fetch_hash ::
  "'n FileCryptor \<Rightarrow> istream \<Rightarrow> error + int \<times> data_t \<times> istream" where
  "decrypt_fetch_hash fc ifs =
     (let ifs1 = seekg (neg_size_t (fc_hashsize fc)) End ifs
      in if failbit ifs1 then Inl Decrypt_cant_seek_to_the_end_for_hash
         else let (hash_pos, ifs2) = tellg ifs1;
                  (hash_saved, ifs3) =
                     read (replicate (fc_hashsize fc) 0) (fc_hashsize fc) ifs2
              in if failbit ifs3 \<and> gcount ifs3 \<noteq> 0 \<and> gcount ifs3 \<noteq> fc_hashsize fc
                 then Inl Decrypt_read_partial_hash
                 else let ifs4 = seekg 0 Beg ifs3;
                          (current_pos, ifs5) = tellg ifs4
                      in Inr (hash_pos, hash_saved, ifs5))"

definition decrypt ::
  "'n sodium \<Rightarrow> 'n FileCryptor \<Rightarrow> istream \<Rightarrow> 'n world \<Rightarrow> ((error + unit) \<times> 'n world) option" where
  "decrypt S fc ifs w =
     (case decrypt_fetch_hash fc ifs of
        Inl e \<Rightarrow> Some (Inl e, w)
      | Inr (hash_pos, hash_saved, ifs1) \<Rightarrow>
          (case decrypt_loop S fc hash_pos (replicate (MACSIZE S + fc_blocksize fc) 0)
                  (fc_nonce fc) False ifs1 [] w of
             None \<Rightarrow> None
           | Some (Inl e, w1) \<Rightarrow> Some (Inl e, w1)
           | Some (Inr (ciphertext, running_nonce, in_mac, ifs2, state), w1) \<Rightarrow>
               (case decrypt_final S fc hash_pos ciphertext running_nonce in_mac ifs2
                       state w1 of
                  (Inl e, w2) \<Rightarrow> Some (Inl e, w2)
                | (Inr state1, w2) \<Rightarrow>
                    let hash = generichash S (fc_hashkey fc) (fc_hashsize fc) state1
                    in if hash \<noteq> hash_saved then Some (Inl Decrypt_hash_mismatch, w2)
                       else Some (Inr (), w2))))"

subsection \<open>Contracts of the collaborators, and values to state the claims with\<close>

text \<open>
  What the header relies on from the Engine (\<^verbatim>\<open>CryptorAEAD\<close>), for keys of the
  Engine's size: encryption does not throw, its result is \<open>MACSIZE\<close> bytes longer
  than the plaintext, and decryption under the same header, key and nonce gives
  the plaintext back.
\<close>

definition engine_ok :: "'n sodium \<Rightarrow> bool" where
  "engine_ok S \<longleftrightarrow>
     (\<forall>h p k n. length k = KEYSIZE_AEAD S \<longrightarrow>
        (\<exists>c. aead_encrypt S h p k n = Some c \<and> length c = MACSIZE S + length p \<and>
             aead_decrypt S h c k n = Some p))"

text \<open>A buffer shorter than a tag is malformed input: the Engine throws on it.\<close>

definition engine_rejects_short :: "'n sodium \<Rightarrow> bool" where
  "engine_rejects_short S \<longleftrightarrow>
     (\<forall>h c k n. length c < MACSIZE S \<longrightarrow> aead_decrypt S h c k n = None)"

text \<open>The hash has the size that was asked for.\<close>

definition hash_ok :: "'n sodium \<Rightarrow> bool" where
  "hash_ok S \<longleftrightarrow> (\<forall>k n m. length (generichash S k n m) = n)"

text \<open>An input stream in good state over the bytes \<open>d\<close>, at position \<open>p\<close>, whose
  last read count was \<open>g\<close>; and a sink in good state on a device without limit,
  with \<open>ws\<close> written so far, beside the Engine invocations \<open>cs\<close> so far.\<close>

definition strm :: "data_t \<Rightarrow> nat \<Rightarrow> nat \<Rightarrow> istream" where
  "strm d p g = \<lparr>content = d, gpos = p, failbit = False, eofbit = False, gcount = g\<rparr>"

definition sink :: "data_t \<Rightarrow> (data_t \<times> 'n) list \<Rightarrow> 'n world" where
  "sink ws cs = \<lparr>ostr = \<lparr>written = ws, obad = False, room = None\<rparr>, engine_calls = cs\<rparr>"

text \<open>The ciphertext block of a plaintext chunk under a nonce, and the blocks of
  a list of chunks, the nonce incremented from one to the next.\<close>

definition seal :: "'n sodium \<Rightarrow> 'n FileCryptor \<Rightarrow> 'n \<Rightarrow> data_t \<Rightarrow> data_t" where
  "seal S fc n p = the (aead_encrypt S (fc_header fc) p (fc_key fc) n)"

primrec seal_blocks :: "'n sodium \<Rightarrow> 'n FileCryptor \<Rightarrow> 'n \<Rightarrow> data_t list \<Rightarrow> data_t list" where
  "seal_blocks S fc n [] = []"
| "seal_blocks S fc n (p # ps) = seal S fc n p # seal_blocks S fc (increment S n) ps"

text \<open>The first \<open>k\<close> values of a running nonce that starts at \<open>n\<close>.\<close>

primrec nonces :: "'n sodium \<Rightarrow> 'n \<Rightarrow> nat \<Rightarrow> 'n list" where
  "nonces S n 0 = []"
| "nonces S n (Suc k) = n # nonces S (increment S n) k"

text \<open>The chunks of \<open>b\<close> bytes of a byte sequence, the last one possibly shorter.\<close>

function chunks :: "nat \<Rightarrow> 'a list \<Rightarrow> 'a list list" where
  "chunks b xs = (if b = 0 \<or> xs = [] then [] else take b xs # chunks b (drop b xs))"
  by pat_completeness auto
termination
  by (relation "measure (\<lambda>(b, xs). length xs)") auto

declare chunks.simps [simp del]

text \<open>The artifact of a plaintext: its ciphertext blocks, then the keyed hash of
  them.\<close>

definition artifact :: "'n sodium \<Rightarrow> 'n FileCryptor \<Rightarrow> data_t \<Rightarrow> data_t" where
  "artifact S fc P =
     (let blocks = concat (seal_blocks S fc (fc_nonce fc) (chunks (fc_blocksize fc) P))
      in blocks @ generichash S (fc_hashkey fc) (fc_hashsize fc) blocks)"

text \<open>The loop of \<open>encrypt\<close> followed by the final partial chunk, from any state
  of the loop variables: the result is the hash state after the last update.\<close>

definition encrypt_from ::
  "'n sodium \<Rightarrow> 'n FileCryptor \<Rightarrow> data_t \<Rightarrow> 'n \<Rightarrow> istream \<Rightarrow> data_t \<Rightarrow> 'n world
   \<Rightarrow> ((error + data_t) \<times> 'n world) option" where
  "encrypt_from S fc plaintext running_nonce istr state w =
     (case encrypt_loop S fc plaintext running_nonce istr state w of
        None \<Rightarrow> None
      | Some (Inl e, w1) \<Rightarrow> Some (Inl e, w1)
      | Some (Inr (plaintext1, running_nonce1, istr1, state1), w1) \<Rightarrow>
          Some (encrypt_final S fc plaintext1 running_nonce1 istr1 state1 w1))"

text \<open>The loop of \<open>decrypt\<close> followed by the final partial chunk, from any state
  of the loop variables.\<close>

definition decrypt_from ::
  "'n sodium \<Rightarrow> 'n FileCryptor \<Rightarrow> int \<Rightarrow> data_t \<Rightarrow> 'n \<Rightarrow> bool \<Rightarrow> istream \<Rightarrow> data_t
   \<Rightarrow> 'n world \<Rightarrow> ((error + data_t) \<times> 'n world) option" where
  "decrypt_from S fc hash_pos ciphertext running_nonce in_mac ifs state w =
     (case decrypt_loop S fc hash_pos ciphertext running_nonce in_mac ifs state w of
        None \<Rightarrow> None
      | Some (Inl e, w1) \<Rightarrow> Some (Inl e, w1)
      | Some (Inr (ciphertext1, running_nonce1, in_mac1, ifs1, state1), w1) \<Rightarrow>
          Some (decrypt_final S fc hash_pos ciphertext1 running_nonce1 in_mac1 ifs1 state1 w1))"

text \<open>The plaintexts that the Engine returns on a list of invocations, one after
  the other; an invocation on which it throws returns nothing.\<close>

definition opened :: "'n sodium \<Rightarrow> 'n FileCryptor \<Rightarrow> (data_t \<times> 'n) list \<Rightarrow> data_t" where
  "opened S fc calls =
     concat (map (\<lambda>(c, n). case aead_decrypt S (fc_header fc) c (fc_key fc) n of
                               None \<Rightarrow> [] | Some x \<Rightarrow> x) calls)"

text \<open>The Engine verifies the tag of every invocation of a list.\<close>

definition verified :: "'n sodium \<Rightarrow> 'n FileCryptor \<Rightarrow> (data_t \<times> 'n) list \<Rightarrow> bool" where
  "verified S fc calls \<longleftrightarrow>
     (\<forall>(c, n) \<in> set calls. aead_decrypt S (fc_header fc) c (fc_key fc) n \<noteq> None)"

text \<open>What the loop and the final partial chunk of \<open>decrypt\<close> leave behind, when
  they start with the running nonce \<open>n\<close> and the hash state \<open>st\<close> and have the
  bytes \<open>region\<close> before the saved hash still to read: the new invocations \<open>new\<close>
  and either the Engine's exception or the new hash state.\<close>

definition block_phase_post ::
  "'n sodium \<Rightarrow> 'n FileCryptor \<Rightarrow> 'n \<Rightarrow> data_t \<Rightarrow> data_t \<Rightarrow> (error + data_t) \<Rightarrow> (data_t \<times> 'n) list \<Rightarrow> bool" where
  "block_phase_post S fc n st region r new \<longleftrightarrow>
     map snd new = nonces S n (length new) \<and>
     (case r of
        Inl e \<Rightarrow> e = Engine_throws \<and> \<not> verified S fc new
      | Inr st' \<Rightarrow> st' = st @ region \<and> concat (map fst new) = region \<and> verified S fc new)"

text \<open>Between the worlds \<open>w\<close> and \<open>w'\<close> the Engine has been invoked on \<open>new\<close>, and
  the nonces of these invocations are the values of a running nonce that starts
  at \<open>n\<close>.\<close>

definition nonce_trace :: "'n sodium \<Rightarrow> 'n \<Rightarrow> 'n world \<Rightarrow> 'n world \<Rightarrow> (data_t \<times> 'n) list \<Rightarrow> bool" where
  "nonce_trace S n w w' new \<longleftrightarrow>
     engine_calls w' = engine_calls w @ new \<and> map snd new = nonces S n (length new)"

text \<open>The sizes of a configuration fit the machine: the chunk size is a
  \<^verbatim>\<open>size_t\<close>, and the hash size an offset that can be negated.\<close>

definition fits_size_t :: "'n sodium \<Rightarrow> 'n FileCryptor \<Rightarrow> bool" where
  "fits_size_t S fc \<longleftrightarrow>
     MACSIZE S + fc_blocksize fc < 2 ^ 64 \<and> fc_hashsize fc \<le> 2 ^ 63"

text \<open>
  Modelled from the spec: the Engine, the hash Accumulator, the nonce and the size
  constants are collaborators whose code is not in the header (sections 1 and 6).
  This instance has libsodium's sizes (a tag of 16 bytes, an Engine key of 32, a
  hash key of 16 to 64, a hash of 16 to 64), a nonce of 64 bits incremented with
  wrap-around, an Engine whose tag is 16 copies of one byte computed from the
  header, the text, the key and the nonce, and a hash that repeats one byte
  computed from the key and the message. It is only used to run the functions on
  concrete inputs.
\<close>

definition toy_tag :: "data_t \<Rightarrow> data_t \<Rightarrow> data_t \<Rightarrow> 64 word \<Rightarrow> data_t" where
  "toy_tag h p k n = replicate 16 (sum_list (h @ p @ k) + ucast n)"

definition toy :: "64 word sodium" where
  "toy = \<lparr>MACSIZE = 16, KEYSIZE_AEAD = 32, HASHKEYSIZE_MIN = 16, HASHKEYSIZE_MAX = 64,
          HASHSIZE_MIN = 16, HASHSIZE_MAX = 64,
          aead_encrypt = (\<lambda>h p k n. if length k = 32 then Some (toy_tag h p k n @ p) else None),
          aead_decrypt = (\<lambda>h c k n.
             if length k = 32 \<and> 16 \<le> length c \<and> take 16 c = toy_tag h (drop 16 c) k n
             then Some (drop 16 c) else None),
          increment = (\<lambda>n. n + 1),
          generichash = (\<lambda>k n m. replicate n (sum_list (k @ m)))\<rparr>"

text \<open>Objects of the class for the instance \<open>toy\<close>: a key of 32 bytes, a hash key
  of 16, the nonce 0 and the empty header of the constructor.\<close>

definition toy_fc :: "nat \<Rightarrow> nat \<Rightarrow> 64 word FileCryptor" where
  "toy_fc blocksize hashsize =
     \<lparr>fc_key = replicate 32 1, fc_hashkey = replicate 16 2, fc_nonce = 0, fc_header = [],
      fc_blocksize = blocksize, fc_hashsize = hashsize\<rparr>"

section \<open>Properties\<close>

subsection \<open>The 64-bit computations\<close>

lemma neg_size_t_eq: "n \<le> 2 ^ 63 \<Longrightarrow> neg_size_t n = - int n"
proof -
  assume n: "n \<le> 2 ^ 63"
  have "(- (word_of_nat n :: 64 word)) = word_of_int (- int n)"
    by simp
  then have "neg_size_t n = signed_take_bit 63 (- int n)"
    unfolding neg_size_t_def by (simp only: sint_sbintrunc') simp
  also have "\<dots> = - int n"
  proof (rule signed_take_bit_int_eq_self)
    have "int n \<le> 2 ^ 63" using n by (metis of_nat_le_iff of_nat_numeral of_nat_power)
    then show "- (2 ^ 63) \<le> - int n" by simp
    show "- int n < 2 ^ 63" by (smt (verit) of_nat_0_le_iff zero_less_power)
  qed
  finally show ?thesis .
qed

lemma size_minus_off_eq:
  "0 \<le> d \<Longrightarrow> d \<le> int n \<Longrightarrow> n < 2 ^ 64 \<Longrightarrow> size_minus_off n d = n - nat d"
proof -
  assume a: "0 \<le> d" "d \<le> int n" "n < 2 ^ 64"
  have "int n < 2 ^ 64" using a(3) by (metis of_nat_less_iff of_nat_numeral of_nat_power)
  then have "(int n - d) mod 2 ^ 64 = int n - d"
    using a by (intro mod_pos_pos_trivial) auto
  then show ?thesis unfolding size_minus_off_def using a by simp
qed

subsection \<open>Reading, seeking and writing on streams in good state\<close>

lemma read_full:
  "p + n \<le> length d \<Longrightarrow>
   read buf n (strm d p g) = (take n (drop p d) @ drop n buf, strm d (p + n) n)"
proof -
  assume a: "p + n \<le> length d"
  then have "min (length d - p) n = n" by simp
  then show ?thesis by (simp add: read_def strm_def Let_def)
qed

lemma read_short:
  "length d < p + n \<Longrightarrow> p \<le> length d \<Longrightarrow>
   read buf n (strm d p g) =
     (drop p d @ drop (length d - p) buf,
      \<lparr>content = d, gpos = p + (length d - p), failbit = True, eofbit = True,
       gcount = length d - p\<rparr>)"
  by (auto simp add: read_def strm_def Let_def min_def)

lemma tellg_strm: "tellg (strm d p g) = (int p, strm d p g)"
  by (simp add: tellg_def strm_def)

lemma failbit_strm: "failbit (strm d p g) = False"
  by (simp add: strm_def)

lemma put_sink: "put bs (sink ws cs) = sink (ws @ bs) cs"
  by (simp add: put_def sink_def write_def)

lemma invoke_sink: "invoke b n (sink ws cs) = sink ws (cs @ [(b, n)])"
  by (simp add: invoke_def sink_def)

lemma obad_sink: "obad (ostr (sink ws cs)) = False"
  by (simp add: sink_def)

subsection \<open>Fetching the saved hash\<close>

lemma fetch_hash_short:
  "length (content ifs) < fc_hashsize fc \<Longrightarrow> fc_hashsize fc \<le> 2 ^ 63 \<Longrightarrow>
   decrypt_fetch_hash fc ifs = Inl Decrypt_cant_seek_to_the_end_for_hash"
  by (simp add: decrypt_fetch_hash_def seekg_def neg_size_t_eq Let_def)

lemma fetch_hash_ok:
  "fc_hashsize fc \<le> length d \<Longrightarrow> fc_hashsize fc \<le> 2 ^ 63 \<Longrightarrow>
   decrypt_fetch_hash fc (strm d p g) =
     Inr (int (length d - fc_hashsize fc), drop (length d - fc_hashsize fc) d,
          strm d 0 (fc_hashsize fc))"
  apply (simp add: decrypt_fetch_hash_def seekg_def neg_size_t_eq Let_def)
  apply (simp add: strm_def read_def tellg_def Let_def seekg_def min_def nat_diff_distrib'
      flip: of_nat_diff)
  done

subsection \<open>Encryption: the run on a source in good state\<close>

lemma encrypt_via_from:
  "encrypt S fc istr w =
     (case encrypt_from S fc (replicate (fc_blocksize fc) 0) (fc_nonce fc) istr [] w of
        None \<Rightarrow> None
      | Some (Inl e, w2) \<Rightarrow> Some (Inl e, w2)
      | Some (Inr state1, w2) \<Rightarrow>
          let hash = generichash S (fc_hashkey fc) (fc_hashsize fc) state1;
              w3 = put hash w2
          in if obad (ostr w3) then Some (Inl Encrypt_error_writing_hash, w3)
             else Some (Inr (), w3))"
  by (simp add: encrypt_def encrypt_from_def split: option.splits sum.splits prod.splits)

lemma engine_ok_seal:
  "engine_ok S \<Longrightarrow> length (fc_key fc) = KEYSIZE_AEAD S \<Longrightarrow>
   aead_encrypt S (fc_header fc) p (fc_key fc) n = Some (seal S fc n p)"
  unfolding engine_ok_def seal_def by (metis option.sel)

lemma engine_ok_length:
  "engine_ok S \<Longrightarrow> length (fc_key fc) = KEYSIZE_AEAD S \<Longrightarrow>
   length (seal S fc n p) = MACSIZE S + length p"
  unfolding engine_ok_def seal_def by (metis option.sel)

lemma engine_ok_open:
  "engine_ok S \<Longrightarrow> length (fc_key fc) = KEYSIZE_AEAD S \<Longrightarrow>
   aead_decrypt S (fc_header fc) (seal S fc n p) (fc_key fc) n = Some p"
  unfolding engine_ok_def seal_def by (metis option.sel)

lemma chunks_step:
  "0 < b \<Longrightarrow> xs \<noteq> [] \<Longrightarrow> chunks b xs = take b xs # chunks b (drop b xs)"
  by (subst chunks.simps) simp

lemma chunks_Nil: "chunks b [] = []"
  by (subst chunks.simps) simp

lemma chunks_short: "0 < b \<Longrightarrow> xs \<noteq> [] \<Longrightarrow> length xs \<le> b \<Longrightarrow> chunks b xs = [xs]"
  by (subst chunks.simps) (simp add: chunks_Nil)

lemma encrypt_from_run:
  assumes ok: "engine_ok S" "length (fc_key fc) = KEYSIZE_AEAD S" and b: "1 \<le> fc_blocksize fc"
  shows "p \<le> length d \<Longrightarrow> length buf = fc_blocksize fc \<Longrightarrow>
    encrypt_from S fc buf n (strm d p g) st (sink ws cs) =
      Some (Inr (st @ concat (seal_blocks S fc n (chunks (fc_blocksize fc) (drop p d)))),
            sink (ws @ concat (seal_blocks S fc n (chunks (fc_blocksize fc) (drop p d))))
                 (cs @ zip (chunks (fc_blocksize fc) (drop p d))
                           (nonces S n (length (chunks (fc_blocksize fc) (drop p d))))))"
proof (induction "length d - p" arbitrary: p buf n g st ws cs rule: less_induct)
  case less
  let ?B = "fc_blocksize fc"
  show ?case
  proof (cases "p + ?B \<le> length d")
    case True
    let ?x = "take ?B (drop p d)"
    have lx: "length ?x = ?B" using True by simp
    have ne: "drop p d \<noteq> []" using True b by auto
    have ch: "chunks ?B (drop p d) = ?x # chunks ?B (drop (p + ?B) d)"
      using chunks_step[of ?B "drop p d"] ne b by (simp add: add.commute)
    have rd: "read buf ?B (strm d p g) = (?x, strm d (p + ?B) ?B)"
      using read_full[OF True, of buf g] less.prems(2) by simp
    have IH: "encrypt_from S fc ?x (increment S n) (strm d (p + ?B) ?B) (st @ seal S fc n ?x)
                (sink (ws @ seal S fc n ?x) (cs @ [(?x, n)])) =
              Some (Inr ((st @ seal S fc n ?x) @ concat (seal_blocks S fc (increment S n) (chunks ?B (drop (p + ?B) d)))),
                 sink ((ws @ seal S fc n ?x) @ concat (seal_blocks S fc (increment S n) (chunks ?B (drop (p + ?B) d))))
                      ((cs @ [(?x, n)]) @ zip (chunks ?B (drop (p + ?B) d))
                           (nonces S (increment S n) (length (chunks ?B (drop (p + ?B) d))))))"
      using True b lx by (intro less.hyps) auto
    have "encrypt_from S fc buf n (strm d p g) st (sink ws cs) =
          encrypt_from S fc ?x (increment S n) (strm d (p + ?B) ?B) (st @ seal S fc n ?x)
                (sink (ws @ seal S fc n ?x) (cs @ [(?x, n)]))"
      unfolding encrypt_from_def
      apply (subst encrypt_loop.simps)
      apply (simp only: rd)
      apply (simp add: failbit_strm invoke_sink put_sink obad_sink engine_ok_seal[OF ok] Let_def)
      done
    then show ?thesis
      by (simp add: IH ch)
  next
    case False
    let ?x = "drop p d"
    have lx: "length ?x < ?B" using False b by simp
    have rd: "read buf ?B (strm d p g) =
       (?x @ drop (length d - p) buf,
        \<lparr>content = d, gpos = p + (length d - p), failbit = True, eofbit = True,
         gcount = length d - p\<rparr>)"
      using read_short[of d p ?B buf g] False less.prems(1) by simp
    show ?thesis
    proof (cases "?x = []")
      case True
      then show ?thesis
        unfolding encrypt_from_def
        apply (subst encrypt_loop.simps)
        apply (simp only: rd)
        apply (simp add: encrypt_final_def chunks_Nil)
        done
    next
      case ne: False
      have ch: "chunks ?B ?x = [?x]" using chunks_short[of ?B ?x] ne lx b by simp
      have rs: "resize (length d - p) (?x @ drop (length d - p) buf) = ?x"
        by (simp add: resize_def)
      show ?thesis
        unfolding encrypt_from_def
        apply (subst encrypt_loop.simps)
        apply (simp only: rd)
        using ne lx less.prems
        apply (simp add: encrypt_final_def ch rs Let_def invoke_sink put_sink obad_sink engine_ok_seal[OF ok])
        done
    qed
  qed
qed

lemma chunks_concat: "0 < b \<Longrightarrow> concat (chunks b xs) = xs"
proof (induction b xs rule: chunks.induct)
  case (1 b xs)
  show ?case
  proof (cases "xs = []")
    case True
    then show ?thesis by (simp add: chunks_Nil)
  next
    case False
    with 1 show ?thesis by (simp add: chunks_step)
  qed
qed

lemma chunks_lengths: "0 < b \<Longrightarrow> c \<in> set (chunks b xs) \<Longrightarrow> 1 \<le> length c \<and> length c \<le> b"
proof (induction b xs rule: chunks.induct)
  case (1 b xs)
  show ?case
  proof (cases "xs = []")
    case True
    with 1 show ?thesis by (simp add: chunks_Nil)
  next
    case False
    with 1 show ?thesis by (auto simp add: chunks_step Suc_le_eq)
  qed
qed

lemma chunks_butlast: "0 < b \<Longrightarrow> c \<in> set (butlast (chunks b xs)) \<Longrightarrow> length c = b"
proof (induction b xs rule: chunks.induct)
  case (1 b xs)
  show ?case
  proof (cases "xs = []")
    case True
    with 1 show ?thesis by (simp add: chunks_Nil)
  next
    case False
    show ?thesis
    proof (cases "drop b xs = []")
      case True
      with 1 False show ?thesis by (simp add: chunks_step chunks_Nil)
    next
      case dr: False
      then have "chunks b (drop b xs) \<noteq> []" using 1(2) by (simp add: chunks_step)
      with 1 False dr show ?thesis by (auto simp add: chunks_step)
    qed
  qed
qed

lemma seal_blocks_lengths:
  "engine_ok S \<Longrightarrow> length (fc_key fc) = KEYSIZE_AEAD S \<Longrightarrow>
   map length (seal_blocks S fc n cs) = map (\<lambda>c. MACSIZE S + length c) cs"
  by (induction cs arbitrary: n) (simp_all add: engine_ok_length)

lemma length_nonces: "length (nonces S n k) = k"
  by (induction k arbitrary: n) simp_all

lemma nth_nonces: "i < k \<Longrightarrow> nonces S n k ! i = (increment S ^^ i) n"
proof (induction k arbitrary: n i)
  case 0
  then show ?case by simp
next
  case (Suc k)
  then show ?case by (cases i) (simp_all add: funpow_swap1)
qed

lemma toy_engine_ok: "engine_ok toy"
  by (simp add: engine_ok_def toy_def toy_tag_def)

lemma toy_engine_rejects_short: "engine_rejects_short toy"
  by (simp add: engine_rejects_short_def toy_def)

lemma toy_hash_ok: "hash_ok toy"
  by (simp add: hash_ok_def toy_def)

lemma encrypt_run:
  assumes "engine_ok S" "length (fc_key fc) = KEYSIZE_AEAD S" "1 \<le> fc_blocksize fc"
    "p \<le> length d"
  shows "encrypt S fc (strm d p g) (sink ws cs) =
     Some (Inr (), sink (ws @ artifact S fc (drop p d))
        (cs @ zip (chunks (fc_blocksize fc) (drop p d))
                  (nonces S (fc_nonce fc) (length (chunks (fc_blocksize fc) (drop p d))))))"
  using assms
  by (simp add: encrypt_via_from encrypt_from_run artifact_def Let_def put_sink obad_sink)

subsection \<open>Decryption: one step of the block phase\<close>

lemma decrypt_via_from:
  "decrypt S fc ifs w =
     (case decrypt_fetch_hash fc ifs of
        Inl e \<Rightarrow> Some (Inl e, w)
      | Inr (hash_pos, hash_saved, ifs1) \<Rightarrow>
          (case decrypt_from S fc hash_pos (replicate (MACSIZE S + fc_blocksize fc) 0)
                  (fc_nonce fc) False ifs1 [] w of
             None \<Rightarrow> None
           | Some (Inl e, w2) \<Rightarrow> Some (Inl e, w2)
           | Some (Inr state1, w2) \<Rightarrow>
               if generichash S (fc_hashkey fc) (fc_hashsize fc) state1 \<noteq> hash_saved
               then Some (Inl Decrypt_hash_mismatch, w2)
               else Some (Inr (), w2)))"
  by (simp add: decrypt_def decrypt_from_def Let_def split: option.splits sum.splits prod.splits)

lemma decrypt_from_in_mac:
  "decrypt_from S fc hp buf n True ifs st w = Some (Inr st, w)"
  unfolding decrypt_from_def
  by (subst decrypt_loop.simps) (simp add: decrypt_final_def split: prod.splits)

lemma decrypt_from_full_block:
  assumes "length buf = MACSIZE S + fc_blocksize fc"
    and "p + (MACSIZE S + fc_blocksize fc) \<le> length d"
    and "int (p + (MACSIZE S + fc_blocksize fc)) \<le> hp"
    and "aead_decrypt S (fc_header fc) (take (MACSIZE S + fc_blocksize fc) (drop p d)) (fc_key fc) n
          = Some x"
  shows "decrypt_from S fc hp buf n False (strm d p g) st (sink ws cs) =
         decrypt_from S fc hp (take (MACSIZE S + fc_blocksize fc) (drop p d)) (increment S n) False
           (strm d (p + (MACSIZE S + fc_blocksize fc)) (MACSIZE S + fc_blocksize fc))
           (st @ take (MACSIZE S + fc_blocksize fc) (drop p d))
           (sink (ws @ x) (cs @ [(take (MACSIZE S + fc_blocksize fc) (drop p d), n)]))"
proof -
  let ?C = "MACSIZE S + fc_blocksize fc"
  have rd: "read buf ?C (strm d p g) = (take ?C (drop p d), strm d (p + ?C) ?C)"
    using read_full[OF assms(2), of buf g] assms(1) by simp
  show ?thesis
    unfolding decrypt_from_def
    apply (subst decrypt_loop.simps)
    apply (simp only: rd)
    using assms(3,4)
    apply (simp add: failbit_strm tellg_strm invoke_sink put_sink obad_sink Let_def)
    done
qed

lemma decrypt_from_cross:
  assumes "length buf = MACSIZE S + fc_blocksize fc"
    and "p + (MACSIZE S + fc_blocksize fc) \<le> length d"
    and "hp < p + (MACSIZE S + fc_blocksize fc)" and "p \<le> hp"
    and "MACSIZE S + fc_blocksize fc < 2 ^ 64"
  shows "decrypt_from S fc (int hp) buf n False (strm d p g) st (sink ws cs) =
         (case aead_decrypt S (fc_header fc) (take (hp - p) (drop p d)) (fc_key fc) n of
            None \<Rightarrow> Some (Inl Engine_throws, sink ws (cs @ [(take (hp - p) (drop p d), n)]))
          | Some x \<Rightarrow> Some (Inr (st @ take (hp - p) (drop p d)),
                            sink (ws @ x) (cs @ [(take (hp - p) (drop p d), n)])))"
proof -
  let ?C = "MACSIZE S + fc_blocksize fc"
  have rd: "read buf ?C (strm d p g) = (take ?C (drop p d), strm d (p + ?C) ?C)"
    using read_full[OF assms(2), of buf g] assms(1) by simp
  have l: "length (take ?C (drop p d)) = ?C" using assms(2) by simp
  have "size_minus_off ?C (int (p + ?C) - int hp) = ?C - nat (int (p + ?C) - int hp)"
    using assms(3,4,5) by (intro size_minus_off_eq) simp_all
  also have "\<dots> = hp - p" using assms(3,4) by linarith
  finally have sz: "size_minus_off ?C (int (p + ?C) - int hp) = hp - p" .
  have rs: "resize (hp - p) (take ?C (drop p d)) = take (hp - p) (drop p d)"
    using assms(3,4) l by (simp add: resize_def min_def)
  have gt: "int hp < int (p + ?C)" using assms(3) by simp
  show ?thesis
    unfolding decrypt_from_def
    apply (subst decrypt_loop.simps)
    apply (simp only: rd)
    apply (simp only: failbit_strm tellg_strm l sz rs gt Let_def split if_True simp_thms)
    apply (cases "aead_decrypt S (fc_header fc) (take (hp - p) (drop p d)) (fc_key fc) n")
     apply (simp add: invoke_sink)
    apply (simp add: invoke_sink put_sink obad_sink decrypt_from_in_mac[unfolded decrypt_from_def])
    done
qed

lemma decrypt_final_short:
  assumes "length buf = c" and "s < c" and "0 < s" and "0 \<le> hp" and "s \<le> length buf"
  shows "decrypt_final S fc hp buf n False
           \<lparr>content = d, gpos = q, failbit = True, eofbit = True, gcount = s\<rparr> st (sink ws cs) =
         (case aead_decrypt S (fc_header fc) (take (s - fc_hashsize fc) buf) (fc_key fc) n of
            None \<Rightarrow> (Inl Engine_throws, sink ws (cs @ [(take (s - fc_hashsize fc) buf, n)]))
          | Some x \<Rightarrow> (Inr (st @ take (s - fc_hashsize fc) buf),
                      sink (ws @ x) (cs @ [(take (s - fc_hashsize fc) buf, n)])))"
proof -
  let ?f = "\<lparr>content = d, gpos = q, failbit = True, eofbit = True, gcount = s\<rparr>"
  have tg: "tellg ?f = (- 1, ?f)" by (simp add: tellg_def)
  have rs: "resize s buf = take s buf" using assms(5) by (simp add: resize_def)
  have ls: "length (take s buf) = s" using assms(5) by simp
  have c: "(if fc_hashsize fc < s then resize (s - fc_hashsize fc) (take s buf) else [])
           = take (s - fc_hashsize fc) buf"
    using assms(5) by (simp add: resize_def min_def)
  have lp: "\<not> hp < - 1" using assms(4) by simp
  have ne: "s \<noteq> length buf" "s \<noteq> 0" using assms(1,2,3) by simp_all
  show ?thesis
    unfolding decrypt_final_def
    apply (simp only: istream.simps ne tg rs ls lp c Let_def split if_True if_False simp_thms not_False_eq_True)
    apply (cases "aead_decrypt S (fc_header fc) (take (s - fc_hashsize fc) buf) (fc_key fc) n")
     apply (simp_all add: invoke_sink put_sink obad_sink)
    done
qed

lemma decrypt_from_short:
  assumes "length buf = MACSIZE S + fc_blocksize fc"
    and "length d < p + (MACSIZE S + fc_blocksize fc)" and "p < length d" and "0 \<le> hp"
  shows "decrypt_from S fc hp buf n False (strm d p g) st (sink ws cs) =
         (case aead_decrypt S (fc_header fc) (take (length d - p - fc_hashsize fc) (drop p d))
                 (fc_key fc) n of
            None \<Rightarrow> Some (Inl Engine_throws,
                      sink ws (cs @ [(take (length d - p - fc_hashsize fc) (drop p d), n)]))
          | Some x \<Rightarrow> Some (Inr (st @ take (length d - p - fc_hashsize fc) (drop p d)),
                      sink (ws @ x) (cs @ [(take (length d - p - fc_hashsize fc) (drop p d), n)])))"
proof -
  let ?C = "MACSIZE S + fc_blocksize fc"
  let ?s = "length d - p"
  let ?f = "\<lparr>content = d, gpos = p + ?s, failbit = True, eofbit = True, gcount = ?s\<rparr>"
  let ?b = "drop p d @ drop ?s buf"
  have rd: "read buf ?C (strm d p g) = (?b, ?f)"
    using read_short[of d p ?C buf g] assms(2,3) by simp
  have l: "length ?b = ?C" using assms(1,2,3) by simp
  have s1: "?s < ?C" "0 < ?s" "?s \<le> length ?b" using assms(2,3) l by simp_all
  have tk: "take (?s - fc_hashsize fc) ?b = take (?s - fc_hashsize fc) (drop p d)"
    by simp
  have fin: "decrypt_final S fc hp ?b n False ?f st (sink ws cs) =
         (case aead_decrypt S (fc_header fc) (take (?s - fc_hashsize fc) (drop p d)) (fc_key fc) n of
            None \<Rightarrow> (Inl Engine_throws, sink ws (cs @ [(take (?s - fc_hashsize fc) (drop p d), n)]))
          | Some x \<Rightarrow> (Inr (st @ take (?s - fc_hashsize fc) (drop p d)),
                      sink (ws @ x) (cs @ [(take (?s - fc_hashsize fc) (drop p d), n)])))"
    using decrypt_final_short[OF l s1(1,2) assms(4) s1(3), of S fc n d "p + ?s" st ws cs]
    by (simp only: tk)
  show ?thesis
    unfolding decrypt_from_def
    apply (subst decrypt_loop.simps)
    apply (simp only: rd Let_def split istream.simps simp_thms if_False option.case sum.case fin)
    apply (cases "aead_decrypt S (fc_header fc) (take (length d - p - fc_hashsize fc) (drop p d)) (fc_key fc) n")
     apply simp_all
    done
qed

lemma decrypt_from_end:
  assumes "1 \<le> MACSIZE S + fc_blocksize fc" and "p = length d"
  shows "decrypt_from S fc hp buf n False (strm d p g) st w = Some (Inr st, w)"
proof -
  let ?C = "MACSIZE S + fc_blocksize fc"
  let ?f = "\<lparr>content = d, gpos = p + (length d - p), failbit = True, eofbit = True, gcount = length d - p\<rparr>"
  have rd: "read buf ?C (strm d p g) = (drop p d @ drop (length d - p) buf, ?f)"
  proof -
    have "length d < p + ?C" using assms by linarith
    then show ?thesis using read_short[of d p ?C buf g] assms(2) by simp
  qed
  show ?thesis
    unfolding decrypt_from_def
    apply (subst decrypt_loop.simps)
    apply (simp only: rd)
    using assms(2)
    apply (simp add: decrypt_final_def)
    done
qed

subsection \<open>Decryption of ciphertext blocks followed by a hash\<close>

lemma decrypt_from_artifact:
  assumes ok: "engine_ok S" "length (fc_key fc) = KEYSIZE_AEAD S"
    and b: "1 \<le> fc_blocksize fc" and fit: "MACSIZE S + fc_blocksize fc < 2 ^ 64"
    and hl: "length dg = fc_hashsize fc"
  shows "d = pre @ concat (seal_blocks S fc n (chunks (fc_blocksize fc) P)) @ dg \<Longrightarrow>
     length buf = MACSIZE S + fc_blocksize fc \<Longrightarrow>
     decrypt_from S fc (int (length d - length dg)) buf n False (strm d (length pre) g) st (sink ws cs) =
       (if length P mod fc_blocksize fc \<noteq> 0 \<or> dg = []
        then Some (Inr (st @ concat (seal_blocks S fc n (chunks (fc_blocksize fc) P))),
                   sink (ws @ P)
                     (cs @ zip (seal_blocks S fc n (chunks (fc_blocksize fc) P))
                               (nonces S n (length (chunks (fc_blocksize fc) P)))))
        else case aead_decrypt S (fc_header fc) [] (fc_key fc)
                    ((increment S ^^ length (chunks (fc_blocksize fc) P)) n) of
               None \<Rightarrow>
                 Some (Inl Engine_throws,
                   sink (ws @ P)
                     (cs @ zip (seal_blocks S fc n (chunks (fc_blocksize fc) P))
                               (nonces S n (length (chunks (fc_blocksize fc) P)))
                         @ [([], (increment S ^^ length (chunks (fc_blocksize fc) P)) n)]))
             | Some x \<Rightarrow>
                 Some (Inr (st @ concat (seal_blocks S fc n (chunks (fc_blocksize fc) P))),
                   sink (ws @ P @ x)
                     (cs @ zip (seal_blocks S fc n (chunks (fc_blocksize fc) P))
                               (nonces S n (length (chunks (fc_blocksize fc) P)))
                         @ [([], (increment S ^^ length (chunks (fc_blocksize fc) P)) n)])))"
proof (induction "length P" arbitrary: P pre n st ws cs buf g rule: less_induct)
  case less
  let ?B = "fc_blocksize fc"
  let ?C = "MACSIZE S + ?B"
  let ?p = "length pre"
  have B0: "0 < ?B" using b by simp
  show ?case
  proof (cases "?B \<le> length P")
    case True
    let ?x = "take ?B P"
    let ?P' = "drop ?B P"
    let ?c = "seal S fc n ?x"
    let ?Cs' = "seal_blocks S fc (increment S n) (chunks ?B ?P')"
    have ne: "P \<noteq> []" using True B0 by auto
    have ch: "chunks ?B P = ?x # chunks ?B ?P'" using chunks_step[OF B0 ne] .
    have lc: "length ?c = ?C" using engine_ok_length[OF ok] True by simp
    have d: "d = (pre @ ?c) @ concat ?Cs' @ dg" using less.prems(1) by (simp add: ch)
    have tk: "take ?C (drop ?p d) = ?c" by (subst d) (simp add: lc)
    have le1: "?p + ?C \<le> length d" by (subst d) (simp add: lc)
    have le2: "int (?p + ?C) \<le> int (length d - length dg)" by (subst d) (simp add: lc)
    have dec: "aead_decrypt S (fc_header fc) (take ?C (drop ?p d)) (fc_key fc) n = Some ?x"
      unfolding tk by (rule engine_ok_open[OF ok])
    have step: "decrypt_from S fc (int (length d - length dg)) buf n False (strm d ?p g) st (sink ws cs) =
          decrypt_from S fc (int (length d - length dg)) ?c (increment S n) False
            (strm d (length (pre @ ?c)) ?C) (st @ ?c) (sink (ws @ ?x) (cs @ [(?c, n)]))"
      using decrypt_from_full_block[OF less.prems(2) le1 le2 dec, of g st ws cs]
      by (simp add: tk lc)
    have lt: "length ?P' < length P" using True B0 by simp
    have md: "length ?P' mod ?B = length P mod ?B" using True by (simp add: le_mod_geq)
    have Px: "\<And>y. ?x @ ?P' @ y = P @ y" by (metis append_assoc append_take_drop_id)
    note IH = less.hyps[OF lt d lc, of ?C "st @ ?c" "ws @ ?x" "cs @ [(?c, n)]"]
    show ?thesis
      unfolding step IH md ch
      by (simp add: funpow_swap1 Px split: option.splits)
  next
    case False
    then have small: "length P < ?B" by simp
    show ?thesis
    proof (cases "P = []")
      case ne: False
      let ?c = "seal S fc n P"
      have ch: "chunks ?B P = [P]" using chunks_short[OF B0 ne] small by simp
      have lc: "length ?c = MACSIZE S + length P" using engine_ok_length[OF ok] by simp
      have lP: "0 < length P" using ne by simp
      have d: "d = pre @ ?c @ dg" using less.prems(1) by (simp add: ch)
      have hp: "length d - length dg = ?p + length ?c" by (subst d) simp
      have md: "length P mod ?B \<noteq> 0" using small lP by simp
      have dec: "aead_decrypt S (fc_header fc) ?c (fc_key fc) n = Some P"
        by (rule engine_ok_open[OF ok])
      show ?thesis
      proof (cases "?p + ?C \<le> length d")
        case True
        have a3: "?p + length ?c < ?p + ?C" using small lc by simp
        have tk: "take (?p + length ?c - ?p) (drop ?p d) = ?c" by (subst d) simp
        have a4: "?p \<le> ?p + length ?c" by simp
        note X = decrypt_from_cross[OF less.prems(2) True a3 a4 fit, of n g st ws cs,
            unfolded tk dec option.case]
        show ?thesis
          unfolding hp X using md by (simp add: ch)
      next
        case False
        then have a2: "length d < ?p + ?C" by simp
        have a3: "?p < length d" by (subst d) (simp add: lc ne)
        have tk: "take (length d - ?p - fc_hashsize fc) (drop ?p d) = ?c"
          by (subst d, subst d) (simp add: hl)
        have a4: "0 \<le> int (?p + length ?c)" by simp
        note X = decrypt_from_short[OF less.prems(2) a2 a3 a4, of n g st ws cs,
            unfolded tk dec option.case]
        show ?thesis
          unfolding hp X using md by (simp add: ch)
      qed
    next
      case True
      have d: "d = pre @ dg" using less.prems(1) True by (simp add: chunks_Nil)
      have hp: "length d - length dg = ?p" by (subst d) simp
      show ?thesis
      proof (cases "dg = []")
        case dg: True
        have "?p = length d" using d dg by simp
        then show ?thesis
          unfolding hp using decrypt_from_end[of S fc ?p d "int ?p" buf n g st "sink ws cs"] b dg True
          by (simp add: chunks_Nil)
      next
        case dg: False
        show ?thesis
        proof (cases "?p + ?C \<le> length d")
          case le: True
          have a3: "?p < ?p + ?C" using B0 by simp
          have tk: "take (?p - ?p) (drop ?p d) = []" by simp
          note X = decrypt_from_cross[OF less.prems(2) le a3 order_refl fit, of n g st ws cs,
              unfolded tk]
          show ?thesis
            unfolding hp X using dg True
            by (simp add: chunks_Nil split: option.splits)
        next
          case False
          then have a2: "length d < ?p + ?C" by simp
          have a3: "?p < length d" using dg by (subst d) simp
          have "length d - ?p - fc_hashsize fc = 0" by (subst d) (simp add: hl)
          then have tk: "take (length d - ?p - fc_hashsize fc) (drop ?p d) = []" by simp
          have a4: "0 \<le> int ?p" by simp
          note X = decrypt_from_short[OF less.prems(2) a2 a3 a4, of n g st ws cs, unfolded tk]
          show ?thesis
            unfolding hp X using dg True
            by (simp add: chunks_Nil split: option.splits)
        qed
      qed
    qed
  qed
qed

subsection \<open>Decryption of any input\<close>

lemma opened_Nil: "opened S fc [] = []"
  by (simp add: opened_def)

lemma opened_Cons_Some:
  "aead_decrypt S (fc_header fc) c (fc_key fc) n = Some x \<Longrightarrow>
   opened S fc ((c, n) # calls) = x @ opened S fc calls"
  by (simp add: opened_def)

lemma opened_single_None:
  "aead_decrypt S (fc_header fc) c (fc_key fc) n = None \<Longrightarrow> opened S fc [(c, n)] = []"
  by (simp add: opened_def)

lemma verified_Nil: "verified S fc []"
  by (simp add: verified_def)

lemma verified_Cons:
  "verified S fc ((c, n) # calls) \<longleftrightarrow>
     aead_decrypt S (fc_header fc) c (fc_key fc) n \<noteq> None \<and> verified S fc calls"
  by (simp add: verified_def)

lemma decrypt_from_full_block_fail:
  assumes "length buf = MACSIZE S + fc_blocksize fc"
    and "p + (MACSIZE S + fc_blocksize fc) \<le> length d"
    and "int (p + (MACSIZE S + fc_blocksize fc)) \<le> hp"
    and "aead_decrypt S (fc_header fc) (take (MACSIZE S + fc_blocksize fc) (drop p d)) (fc_key fc) n
          = None"
  shows "decrypt_from S fc hp buf n False (strm d p g) st (sink ws cs) =
         Some (Inl Engine_throws,
               sink ws (cs @ [(take (MACSIZE S + fc_blocksize fc) (drop p d), n)]))"
proof -
  let ?C = "MACSIZE S + fc_blocksize fc"
  have rd: "read buf ?C (strm d p g) = (take ?C (drop p d), strm d (p + ?C) ?C)"
    using read_full[OF assms(2), of buf g] assms(1) by simp
  show ?thesis
    unfolding decrypt_from_def
    apply (subst decrypt_loop.simps)
    apply (simp only: rd)
    using assms(3,4)
    apply (simp add: failbit_strm tellg_strm invoke_sink Let_def)
    done
qed

lemma decrypt_from_general:
  assumes c: "1 \<le> MACSIZE S + fc_blocksize fc" and fit: "MACSIZE S + fc_blocksize fc < 2 ^ 64"
  shows "p \<le> hp \<Longrightarrow> hp + fc_hashsize fc = length d \<Longrightarrow> length buf = MACSIZE S + fc_blocksize fc \<Longrightarrow>
     \<exists>r new. decrypt_from S fc (int hp) buf n False (strm d p g) st (sink ws cs) =
                Some (r, sink (ws @ opened S fc new) (cs @ new)) \<and>
             block_phase_post S fc n st (take (hp - p) (drop p d)) r new"
proof (induction "length d - p" arbitrary: p buf n g st ws cs rule: less_induct)
  case less
  let ?C = "MACSIZE S + fc_blocksize fc"
  let ?H = "fc_hashsize fc"
  show ?case
  proof (cases "p + ?C \<le> length d")
    case True
    show ?thesis
    proof (cases "p + ?C \<le> hp")
      case le: True
      let ?c = "take ?C (drop p d)"
      have le2: "int (p + ?C) \<le> int hp" using le by simp
      have lc: "length ?c = ?C" using True by simp
      show ?thesis
      proof (cases "aead_decrypt S (fc_header fc) ?c (fc_key fc) n")
        case None
        have "decrypt_from S fc (int hp) buf n False (strm d p g) st (sink ws cs) =
                Some (Inl Engine_throws, sink (ws @ opened S fc [(?c, n)]) (cs @ [(?c, n)]))"
          using decrypt_from_full_block_fail[OF less.prems(3) True le2 None, of g st ws cs]
          by (simp add: opened_single_None[OF None])
        moreover have "block_phase_post S fc n st (take (hp - p) (drop p d)) (Inl Engine_throws) [(?c, n)]"
          using None by (simp add: block_phase_post_def verified_Cons)
        ultimately show ?thesis by blast
      next
        case (Some x)
        have lt: "length d - (p + ?C) < length d - p" using True c by simp
        from less.hyps[OF lt le less.prems(2) lc, of "increment S n" ?C "st @ ?c" "ws @ x" "cs @ [(?c, n)]"]
        obtain r new where
          run: "decrypt_from S fc (int hp) ?c (increment S n) False (strm d (p + ?C) ?C) (st @ ?c)
                  (sink (ws @ x) (cs @ [(?c, n)])) =
                Some (r, sink ((ws @ x) @ opened S fc new) ((cs @ [(?c, n)]) @ new))"
          and post: "block_phase_post S fc (increment S n) (st @ ?c)
                       (take (hp - (p + ?C)) (drop (p + ?C) d)) r new"
          by blast
        have reg: "take (hp - p) (drop p d) = ?c @ take (hp - (p + ?C)) (drop (p + ?C) d)"
        proof -
          have "hp - p = ?C + (hp - (p + ?C))" using le by simp
          then show ?thesis by (simp only: take_add drop_drop add.commute)
        qed
        have "decrypt_from S fc (int hp) buf n False (strm d p g) st (sink ws cs) =
                Some (r, sink (ws @ opened S fc ((?c, n) # new)) (cs @ ((?c, n) # new)))"
          using decrypt_from_full_block[OF less.prems(3) True le2 Some, of g st ws cs] run
          by (simp add: opened_Cons_Some[OF Some])
        moreover have "block_phase_post S fc n st (take (hp - p) (drop p d)) r ((?c, n) # new)"
          using post Some unfolding reg
          by (cases r) (simp_all add: block_phase_post_def verified_Cons)
        ultimately show ?thesis by blast
      qed
    next
      case False
      then have lt: "hp < p + ?C" by simp
      let ?c = "take (hp - p) (drop p d)"
      note X = decrypt_from_cross[OF less.prems(3) True lt less.prems(1) fit, of n g st ws cs]
      show ?thesis
      proof (cases "aead_decrypt S (fc_header fc) ?c (fc_key fc) n")
        case None
        have "decrypt_from S fc (int hp) buf n False (strm d p g) st (sink ws cs) =
                Some (Inl Engine_throws, sink (ws @ opened S fc [(?c, n)]) (cs @ [(?c, n)]))"
          using X by (simp add: None opened_single_None[OF None])
        moreover have "block_phase_post S fc n st ?c (Inl Engine_throws) [(?c, n)]"
          using None by (simp add: block_phase_post_def verified_Cons)
        ultimately show ?thesis by blast
      next
        case (Some x)
        have "decrypt_from S fc (int hp) buf n False (strm d p g) st (sink ws cs) =
                Some (Inr (st @ ?c), sink (ws @ opened S fc [(?c, n)]) (cs @ [(?c, n)]))"
          using X by (simp add: Some opened_Cons_Some[OF Some] opened_Nil)
        moreover have "block_phase_post S fc n st ?c (Inr (st @ ?c)) [(?c, n)]"
          using Some by (simp add: block_phase_post_def verified_Cons verified_Nil)
        ultimately show ?thesis by blast
      qed
    qed
  next
    case False
    then have short: "length d < p + ?C" by simp
    show ?thesis
    proof (cases "p < length d")
      case True
      let ?c = "take (hp - p) (drop p d)"
      have e: "length d - p - ?H = hp - p" using less.prems(2) by simp
      have a4: "0 \<le> int hp" by simp
      note X = decrypt_from_short[OF less.prems(3) short True a4, of n g st ws cs, unfolded e]
      show ?thesis
      proof (cases "aead_decrypt S (fc_header fc) ?c (fc_key fc) n")
        case None
        have "decrypt_from S fc (int hp) buf n False (strm d p g) st (sink ws cs) =
                Some (Inl Engine_throws, sink (ws @ opened S fc [(?c, n)]) (cs @ [(?c, n)]))"
          using X by (simp add: None opened_single_None[OF None])
        moreover have "block_phase_post S fc n st ?c (Inl Engine_throws) [(?c, n)]"
          using None by (simp add: block_phase_post_def verified_Cons)
        ultimately show ?thesis by blast
      next
        case (Some x)
        have "decrypt_from S fc (int hp) buf n False (strm d p g) st (sink ws cs) =
                Some (Inr (st @ ?c), sink (ws @ opened S fc [(?c, n)]) (cs @ [(?c, n)]))"
          using X by (simp add: Some opened_Cons_Some[OF Some] opened_Nil)
        moreover have "block_phase_post S fc n st ?c (Inr (st @ ?c)) [(?c, n)]"
          using Some by (simp add: block_phase_post_def verified_Cons verified_Nil)
        ultimately show ?thesis by blast
      qed
    next
      case False
      then have pe: "p = length d" using less.prems(1,2) by simp
      have "decrypt_from S fc (int hp) buf n False (strm d p g) st (sink ws cs) =
              Some (Inr st, sink (ws @ opened S fc []) (cs @ []))"
        using decrypt_from_end[OF c pe, of "int hp" buf n g st "sink ws cs"]
        by (simp add: opened_Nil)
      moreover have "block_phase_post S fc n st (take (hp - p) (drop p d)) (Inr st) []"
        using pe by (simp add: block_phase_post_def verified_Nil)
      ultimately show ?thesis by blast
    qed
  qed
qed

subsection \<open>The whole of decrypt\<close>

lemma decrypt_general:
  assumes c: "1 \<le> MACSIZE S + fc_blocksize fc" and fit: "fits_size_t S fc"
    and h: "fc_hashsize fc \<le> length d"
  shows "\<exists>r new. decrypt S fc (strm d p g) (sink ws cs) =
                    Some (r, sink (ws @ opened S fc new) (cs @ new)) \<and>
           map snd new = nonces S (fc_nonce fc) (length new) \<and>
           (if verified S fc new
            then concat (map fst new) = take (length d - fc_hashsize fc) d \<and>
                 r = (if generichash S (fc_hashkey fc) (fc_hashsize fc)
                           (take (length d - fc_hashsize fc) d)
                         = drop (length d - fc_hashsize fc) d
                      then Inr () else Inl Decrypt_hash_mismatch)
            else r = Inl Engine_throws)"
proof -
  let ?H = "fc_hashsize fc"
  let ?hp = "length d - ?H"
  have f1: "MACSIZE S + fc_blocksize fc < 2 ^ 64" and f2: "?H \<le> 2 ^ 63"
    using fit by (simp_all add: fits_size_t_def)
  have hp: "?hp + ?H = length d" using h by simp
  have "\<exists>r new. decrypt_from S fc (int ?hp) (replicate (MACSIZE S + fc_blocksize fc) 0)
            (fc_nonce fc) False (strm d 0 ?H) [] (sink ws cs) =
              Some (r, sink (ws @ opened S fc new) (cs @ new)) \<and>
            block_phase_post S fc (fc_nonce fc) [] (take (?hp - 0) (drop 0 d)) r new"
    by (rule decrypt_from_general[OF c f1 _ hp]) simp_all
  then obtain r new where
    run: "decrypt_from S fc (int ?hp) (replicate (MACSIZE S + fc_blocksize fc) 0) (fc_nonce fc) False
            (strm d 0 ?H) [] (sink ws cs) = Some (r, sink (ws @ opened S fc new) (cs @ new))"
    and post: "block_phase_post S fc (fc_nonce fc) [] (take ?hp d) r new"
    by auto
  show ?thesis
  proof (cases r)
    case (Inl e)
    then have "decrypt S fc (strm d p g) (sink ws cs) =
                 Some (Inl Engine_throws, sink (ws @ opened S fc new) (cs @ new))"
      using run post
      by (simp add: decrypt_via_from fetch_hash_ok[OF h f2] block_phase_post_def)
    then show ?thesis using post Inl by (auto simp add: block_phase_post_def)
  next
    case (Inr st')
    then have "decrypt S fc (strm d p g) (sink ws cs) =
                 Some (if generichash S (fc_hashkey fc) ?H (take ?hp d) = drop ?hp d
                       then Inr () else Inl Decrypt_hash_mismatch,
                       sink (ws @ opened S fc new) (cs @ new))"
      using run post
      by (simp add: decrypt_via_from fetch_hash_ok[OF h f2] block_phase_post_def)
    then show ?thesis using post Inr by (auto simp add: block_phase_post_def)
  qed
qed

lemma decrypt_blocks_digest:
  assumes ok: "engine_ok S" "length (fc_key fc) = KEYSIZE_AEAD S"
    and b: "1 \<le> fc_blocksize fc" and fit: "fits_size_t S fc"
    and ldg: "length dg = fc_hashsize fc"
  shows "decrypt S fc
           (strm (concat (seal_blocks S fc (fc_nonce fc) (chunks (fc_blocksize fc) P)) @ dg) p g)
           (sink ws cs) =
       (if length P mod fc_blocksize fc \<noteq> 0 \<or> fc_hashsize fc = 0
        then Some (if generichash S (fc_hashkey fc) (fc_hashsize fc)
                        (concat (seal_blocks S fc (fc_nonce fc) (chunks (fc_blocksize fc) P))) = dg
                   then Inr () else Inl Decrypt_hash_mismatch,
                   sink (ws @ P)
                     (cs @ zip (seal_blocks S fc (fc_nonce fc) (chunks (fc_blocksize fc) P))
                               (nonces S (fc_nonce fc) (length (chunks (fc_blocksize fc) P)))))
        else case aead_decrypt S (fc_header fc) [] (fc_key fc)
                    ((increment S ^^ length (chunks (fc_blocksize fc) P)) (fc_nonce fc)) of
               None \<Rightarrow>
                 Some (Inl Engine_throws,
                   sink (ws @ P)
                     (cs @ zip (seal_blocks S fc (fc_nonce fc) (chunks (fc_blocksize fc) P))
                               (nonces S (fc_nonce fc) (length (chunks (fc_blocksize fc) P)))
                         @ [([], (increment S ^^ length (chunks (fc_blocksize fc) P)) (fc_nonce fc))]))
             | Some x \<Rightarrow>
                 Some (if generichash S (fc_hashkey fc) (fc_hashsize fc)
                        (concat (seal_blocks S fc (fc_nonce fc) (chunks (fc_blocksize fc) P))) = dg
                       then Inr () else Inl Decrypt_hash_mismatch,
                   sink (ws @ P @ x)
                     (cs @ zip (seal_blocks S fc (fc_nonce fc) (chunks (fc_blocksize fc) P))
                               (nonces S (fc_nonce fc) (length (chunks (fc_blocksize fc) P)))
                         @ [([], (increment S ^^ length (chunks (fc_blocksize fc) P)) (fc_nonce fc))])))"
proof -
  let ?H = "fc_hashsize fc"
  let ?B = "fc_blocksize fc"
  let ?Cs = "seal_blocks S fc (fc_nonce fc) (chunks ?B P)"
  define d where "d = concat ?Cs @ dg"
  have f1: "MACSIZE S + ?B < 2 ^ 64" and f2: "?H \<le> 2 ^ 63"
    using fit by (simp_all add: fits_size_t_def)
  have d: "d = [] @ concat ?Cs @ dg" by (simp add: d_def)
  have h: "?H \<le> length d" by (simp add: d_def ldg)
  have dr: "drop (length d - ?H) d = dg" by (simp add: d_def ldg)
  have hp: "length d - ?H = length d - length dg" by (simp add: ldg)
  have e: "(dg = []) = (?H = 0)" using ldg by (metis length_0_conv)
  have lb: "length (replicate (MACSIZE S + ?B) (0::8 word)) = MACSIZE S + ?B" by simp
  note X = decrypt_from_artifact[OF ok b f1 ldg d lb, where g="?H"
      and st="[]" and ws=ws and cs=cs, folded hp]
  have "decrypt S fc (strm d p g) (sink ws cs) =
       (if length P mod fc_blocksize fc \<noteq> 0 \<or> fc_hashsize fc = 0
        then Some (if generichash S (fc_hashkey fc) (fc_hashsize fc) (concat ?Cs) = dg
                   then Inr () else Inl Decrypt_hash_mismatch,
                   sink (ws @ P)
                     (cs @ zip ?Cs (nonces S (fc_nonce fc) (length (chunks (fc_blocksize fc) P)))))
        else case aead_decrypt S (fc_header fc) [] (fc_key fc)
                    ((increment S ^^ length (chunks (fc_blocksize fc) P)) (fc_nonce fc)) of
               None \<Rightarrow>
                 Some (Inl Engine_throws,
                   sink (ws @ P)
                     (cs @ zip ?Cs (nonces S (fc_nonce fc) (length (chunks (fc_blocksize fc) P)))
                         @ [([], (increment S ^^ length (chunks (fc_blocksize fc) P)) (fc_nonce fc))]))
             | Some x \<Rightarrow>
                 Some (if generichash S (fc_hashkey fc) (fc_hashsize fc) (concat ?Cs) = dg
                       then Inr () else Inl Decrypt_hash_mismatch,
                   sink (ws @ P @ x)
                     (cs @ zip ?Cs (nonces S (fc_nonce fc) (length (chunks (fc_blocksize fc) P)))
                         @ [([], (increment S ^^ length (chunks (fc_blocksize fc) P)) (fc_nonce fc))])))"
    using X
    by (simp add: decrypt_via_from fetch_hash_ok[OF h f2] dr e split: option.splits)
  then show ?thesis unfolding d_def .
qed

subsection \<open>The instance\<close>

lemma toy_fc_fits:
  "blocksize < 2 ^ 63 \<Longrightarrow> hashsize \<le> 2 ^ 63 \<Longrightarrow> fits_size_t toy (toy_fc blocksize hashsize)"
  by (simp add: fits_size_t_def toy_def toy_fc_def)

lemma toy_fc_constructed:
  "1 \<le> blocksize \<Longrightarrow>
   FileCryptor toy (replicate 32 1) 0 blocksize (replicate 16 2) hashsize =
     Inr (toy_fc blocksize hashsize)"
  by (simp add: FileCryptor_def toy_def toy_fc_def)

subsection \<open>Blocks and nonces by index\<close>

lemma seal_blocks_nth:
  "i < length cs \<Longrightarrow>
   seal_blocks S fc n cs ! i = seal S fc ((increment S ^^ i) n) (cs ! i)"
proof (induction cs arbitrary: n i)
  case Nil
  then show ?case by simp
next
  case (Cons c cs)
  then show ?case by (cases i) (simp_all add: funpow_swap1)
qed

lemma length_seal_blocks: "length (seal_blocks S fc n cs) = length cs"
  by (induction cs arbitrary: n) simp_all

lemma engine_rejects_empty:
  "engine_rejects_short S \<Longrightarrow> 1 \<le> MACSIZE S \<Longrightarrow> aead_decrypt S h [] k n = None"
  by (simp add: engine_rejects_short_def)

subsection \<open>Both operations end, on every stream and sink and with every Engine\<close>

lemma read_progress:
  assumes "read buf n s = (buf', s')" and "\<not> failbit s'" and "1 \<le> n"
  shows "length (content s') - gpos s' < length (content s) - gpos s \<and> \<not> eofbit s'"
proof (cases "failbit s \<or> eofbit s")
  case True
  with assms(1,2) show ?thesis by (auto simp add: read_def)
next
  case False
  let ?got = "take n (drop (gpos s) (content s))"
  from False assms(1) have s': "s' = s\<lparr>gpos := gpos s + length ?got, failbit := length ?got < n,
                 eofbit := length ?got < n, gcount := length ?got\<rparr>"
    by (simp add: read_def Let_def)
  with assms(2) have l: "length ?got = n" by simp
  then have "n \<le> length (content s) - gpos s" by simp
  with assms(3) l show ?thesis unfolding s' by simp
qed

lemma encrypt_loop_ends:
  assumes b: "1 \<le> fc_blocksize fc"
  shows "\<exists>r. encrypt_loop S fc buf n istr st w = Some r"
proof (induction "length (content istr) - gpos istr" arbitrary: buf n istr st w rule: less_induct)
  case less
  obtain buf1 istr1 where rd: "read buf (fc_blocksize fc) istr = (buf1, istr1)"
    by (cases "read buf (fc_blocksize fc) istr") auto
  show ?case
  proof (cases "failbit istr1")
    case True
    then show ?thesis by (subst encrypt_loop.simps) (simp add: rd)
  next
    case nf: False
    note pr = read_progress[OF rd nf b]
    show ?thesis
    proof (cases "aead_encrypt S (fc_header fc) buf1 (fc_key fc) n")
      case None
      then show ?thesis by (subst encrypt_loop.simps) (simp add: rd nf)
    next
      case (Some c)
      show ?thesis
      proof (cases "obad (ostr (put c (invoke buf1 n w)))")
        case True
        then show ?thesis by (subst encrypt_loop.simps) (simp add: rd nf Some Let_def)
      next
        case False
        from less.hyps[of istr1 buf1 "increment S n" "st @ c" "put c (invoke buf1 n w)"] pr
        obtain r where "encrypt_loop S fc buf1 (increment S n) istr1 (st @ c)
                          (put c (invoke buf1 n w)) = Some r"
          by blast
        then show ?thesis by (subst encrypt_loop.simps) (simp add: rd nf Some False Let_def)
      qed
    qed
  qed
qed

lemma encrypt_ends:
  assumes "1 \<le> fc_blocksize fc"
  shows "\<exists>r. encrypt S fc istr w = Some r"
proof -
  obtain r where "encrypt_loop S fc (replicate (fc_blocksize fc) 0) (fc_nonce fc) istr [] w = Some r"
    using encrypt_loop_ends[OF assms] by blast
  then show ?thesis
    by (simp add: encrypt_def Let_def split: prod.splits sum.splits)
qed

lemma decrypt_loop_ends:
  assumes c: "1 \<le> MACSIZE S + fc_blocksize fc"
  shows "\<exists>r. decrypt_loop S fc hp buf n im ifs st w = Some r"
proof (induction "length (content ifs) - gpos ifs" arbitrary: buf n im ifs st w rule: less_induct)
  case less
  let ?C = "MACSIZE S + fc_blocksize fc"
  obtain buf1 ifs1 where rd: "read buf ?C ifs = (buf1, ifs1)"
    by (cases "read buf ?C ifs") auto
  show ?case
  proof (cases "\<not> failbit ifs1 \<and> \<not> im")
    case False
    then show ?thesis by (subst decrypt_loop.simps) (auto simp add: rd)
  next
    case True
    then have nf: "\<not> failbit ifs1" and im: "\<not> im" by simp_all
    note pr = read_progress[OF rd nf c]
    have tg: "tellg ifs1 = (int (gpos ifs1), ifs1)" using nf pr by (simp add: tellg_def)
    obtain buf2 im1 where cut:
      "(if hp < int (gpos ifs1)
        then (resize (size_minus_off (length buf1) (int (gpos ifs1) - hp)) buf1, True)
        else (buf1, im)) = (buf2, im1)"
      by (cases "hp < int (gpos ifs1)") auto
    show ?thesis
    proof (cases "aead_decrypt S (fc_header fc) buf2 (fc_key fc) n")
      case None
      then show ?thesis
        by (subst decrypt_loop.simps) (simp add: rd nf im tg cut Let_def)
    next
      case (Some x)
      show ?thesis
      proof (cases "obad (ostr (put x (invoke buf2 n w)))")
        case True
        then show ?thesis
          by (subst decrypt_loop.simps) (simp add: rd nf im tg cut Some Let_def)
      next
        case False
        from less.hyps[of ifs1 buf2 "increment S n" im1 "st @ buf2" "put x (invoke buf2 n w)"] pr
        obtain r where "decrypt_loop S fc hp buf2 (increment S n) im1 ifs1 (st @ buf2)
                          (put x (invoke buf2 n w)) = Some r"
          by blast
        then show ?thesis
          by (subst decrypt_loop.simps) (simp add: rd nf im tg cut Some False Let_def)
      qed
    qed
  qed
qed

lemma decrypt_ends:
  assumes "1 \<le> fc_blocksize fc"
  shows "\<exists>r. decrypt S fc ifs w = Some r"
proof (cases "decrypt_fetch_hash fc ifs")
  case (Inl e)
  then show ?thesis by (simp add: decrypt_def)
next
  case (Inr t)
  obtain hp saved ifs1 where t: "t = (hp, saved, ifs1)" by (cases t) auto
  have c: "1 \<le> MACSIZE S + fc_blocksize fc" using assms by simp
  obtain r where "decrypt_loop S fc hp (replicate (MACSIZE S + fc_blocksize fc) 0) (fc_nonce fc)
                    False ifs1 [] w = Some r"
    using decrypt_loop_ends[OF c] by blast
  then show ?thesis
    by (simp add: decrypt_def Inr t Let_def split: prod.splits sum.splits)
qed

subsection \<open>The running nonce, on every stream and sink and with every Engine\<close>

lemma engine_calls_put: "engine_calls (put c w) = engine_calls w"
  by (simp add: put_def)

lemma engine_calls_invoke: "engine_calls (invoke b n w) = engine_calls w @ [(b, n)]"
  by (simp add: invoke_def)

lemma nonces_snoc: "nonces S n (Suc k) = nonces S n k @ [(increment S ^^ k) n]"
proof (induction k arbitrary: n)
  case 0
  then show ?case by simp
next
  case (Suc k)
  have "nonces S n (Suc (Suc k)) = n # nonces S (increment S n) (Suc k)" by simp
  also have "\<dots> = n # (nonces S (increment S n) k @ [(increment S ^^ k) (increment S n)])"
    by (simp only: Suc.IH)
  also have "\<dots> = nonces S n (Suc k) @ [(increment S ^^ Suc k) n]"
    by (simp add: funpow_swap1)
  finally show ?case .
qed

lemma nonce_trace_refl: "nonce_trace S n w w []"
  by (simp add: nonce_trace_def)

lemma nonce_trace_one: "engine_calls w' = engine_calls w @ [(b, n)] \<Longrightarrow> nonce_trace S n w w' [(b, n)]"
  by (simp add: nonce_trace_def)

lemma nonce_trace_step:
  "engine_calls w1 = engine_calls w @ [(b, n)] \<Longrightarrow> nonce_trace S (increment S n) w1 w' new \<Longrightarrow>
   nonce_trace S n w w' ((b, n) # new)"
  by (simp add: nonce_trace_def)

lemma nonce_trace_snoc:
  "nonce_trace S n w w1 new \<Longrightarrow> engine_calls w' = engine_calls w1 @ [(b, (increment S ^^ length new) n)] \<Longrightarrow>
   nonce_trace S n w w' (new @ [(b, (increment S ^^ length new) n)])"
  by (simp add: nonce_trace_def nonces_snoc del: nonces.simps)

lemma encrypt_loop_nonces:
  assumes b: "1 \<le> fc_blocksize fc"
  shows "\<exists>r w' new. encrypt_loop S fc buf n istr st w = Some (r, w') \<and> nonce_trace S n w w' new \<and>
           (\<forall>x. r = Inr x \<longrightarrow> fst (snd x) = (increment S ^^ length new) n)"
proof (induction "length (content istr) - gpos istr" arbitrary: buf n istr st w rule: less_induct)
  case less
  obtain buf1 istr1 where rd: "read buf (fc_blocksize fc) istr = (buf1, istr1)"
    by (cases "read buf (fc_blocksize fc) istr") auto
  show ?case
  proof (cases "failbit istr1")
    case True
    then have "encrypt_loop S fc buf n istr st w = Some (Inr (buf1, n, istr1, st), w)"
      by (subst encrypt_loop.simps) (simp add: rd)
    then show ?thesis using nonce_trace_refl[of S n w] by fastforce
  next
    case nf: False
    note pr = read_progress[OF rd nf b]
    let ?w1 = "invoke buf1 n w"
    show ?thesis
    proof (cases "aead_encrypt S (fc_header fc) buf1 (fc_key fc) n")
      case None
      then have "encrypt_loop S fc buf n istr st w = Some (Inl Engine_throws, ?w1)"
        by (subst encrypt_loop.simps) (simp add: rd nf)
      moreover have "nonce_trace S n w ?w1 [(buf1, n)]"
        by (rule nonce_trace_one) (simp add: engine_calls_invoke)
      ultimately show ?thesis by blast
    next
      case (Some c)
      let ?w2 = "put c ?w1"
      have e2: "engine_calls ?w2 = engine_calls w @ [(buf1, n)]"
        by (simp add: engine_calls_put engine_calls_invoke)
      show ?thesis
      proof (cases "obad (ostr ?w2)")
        case True
        then have "encrypt_loop S fc buf n istr st w = Some (Inl Encrypt_error_writing_full_chunk, ?w2)"
          by (subst encrypt_loop.simps) (simp add: rd nf Some Let_def)
        moreover have "nonce_trace S n w ?w2 [(buf1, n)]"
          by (rule nonce_trace_one) (rule e2)
        ultimately show ?thesis by blast
      next
        case False
        from less.hyps[of istr1 buf1 "increment S n" "st @ c" ?w2] pr
        obtain r w' new where
          run: "encrypt_loop S fc buf1 (increment S n) istr1 (st @ c) ?w2 = Some (r, w')"
          and tr: "nonce_trace S (increment S n) ?w2 w' new"
          and fin: "\<forall>x. r = Inr x \<longrightarrow> fst (snd x) = (increment S ^^ length new) (increment S n)"
          by blast
        have "encrypt_loop S fc buf n istr st w = Some (r, w')"
          by (subst encrypt_loop.simps) (simp add: rd nf Some False Let_def run)
        moreover have "nonce_trace S n w w' ((buf1, n) # new)"
          by (rule nonce_trace_step[OF e2 tr])
        moreover have "\<forall>x. r = Inr x \<longrightarrow> fst (snd x) = (increment S ^^ length ((buf1, n) # new)) n"
          using fin by (simp add: funpow_swap1)
        ultimately show ?thesis by blast
      qed
    qed
  qed
qed

lemma encrypt_nonces:
  assumes "1 \<le> fc_blocksize fc"
  shows "\<exists>r w' new. encrypt S fc istr w = Some (r, w') \<and> nonce_trace S (fc_nonce fc) w w' new"
proof -
  from encrypt_loop_nonces[OF assms, of S "replicate (fc_blocksize fc) 0" "fc_nonce fc" istr "[]" w]
  obtain r w1 new where
    run: "encrypt_loop S fc (replicate (fc_blocksize fc) 0) (fc_nonce fc) istr [] w = Some (r, w1)"
    and tr: "nonce_trace S (fc_nonce fc) w w1 new"
    and fin: "\<forall>x. r = Inr x \<longrightarrow> fst (snd x) = (increment S ^^ length new) (fc_nonce fc)"
    by blast
  show ?thesis
  proof (cases r)
    case (Inl e)
    then have "encrypt S fc istr w = Some (Inl e, w1)" by (simp add: encrypt_def run)
    with tr show ?thesis by blast
  next
    case (Inr x)
    obtain pt rn istr1 st1 where x: "x = (pt, rn, istr1, st1)" by (cases x) auto
    have rn: "rn = (increment S ^^ length new) (fc_nonce fc)" using fin Inr x by simp
    show ?thesis
    proof (cases "gcount istr1 = 0")
      case True
      then have fe: "encrypt_final S fc pt rn istr1 st1 w1 = (Inr st1, w1)"
        by (simp add: encrypt_final_def)
      have "\<exists>r'. encrypt S fc istr w = Some (r', put (generichash S (fc_hashkey fc) (fc_hashsize fc) st1) w1)"
        by (simp add: encrypt_def run Inr x fe Let_def)
      moreover have "nonce_trace S (fc_nonce fc) w (put (generichash S (fc_hashkey fc) (fc_hashsize fc) st1) w1) new"
        using tr by (simp add: nonce_trace_def engine_calls_put)
      ultimately show ?thesis by blast
    next
      case False
      define pt1 where "pt1 = (if gcount istr1 \<noteq> length pt then resize (gcount istr1) pt else pt)"
      let ?w2 = "invoke pt1 rn w1"
      have fe: "encrypt_final S fc pt rn istr1 st1 w1 =
                  (case aead_encrypt S (fc_header fc) pt1 (fc_key fc) rn of
                     None \<Rightarrow> (Inl Engine_throws, ?w2)
                   | Some c \<Rightarrow> if obad (ostr (put c ?w2))
                              then (Inl Encrypt_error_writing_final_chunk, put c ?w2)
                              else (Inr (st1 @ c), put c ?w2))"
        unfolding encrypt_final_def Let_def pt1_def[symmetric]
        using False by (simp split: option.splits)
      have tr2: "\<And>w'. engine_calls w' = engine_calls ?w2 \<Longrightarrow>
                   nonce_trace S (fc_nonce fc) w w' (new @ [(pt1, (increment S ^^ length new) (fc_nonce fc))])"
        by (rule nonce_trace_snoc[OF tr]) (simp add: engine_calls_invoke rn)
      show ?thesis
      proof (cases "aead_encrypt S (fc_header fc) pt1 (fc_key fc) rn")
        case None
        then have "encrypt S fc istr w = Some (Inl Engine_throws, ?w2)"
          by (simp add: encrypt_def run Inr x fe)
        with tr2[of ?w2] show ?thesis by blast
      next
        case (Some c)
        let ?w3 = "put c ?w2"
        have e3: "engine_calls ?w3 = engine_calls ?w2" by (simp add: engine_calls_put)
        show ?thesis
        proof (cases "obad (ostr ?w3)")
          case True
          then have "encrypt S fc istr w = Some (Inl Encrypt_error_writing_final_chunk, ?w3)"
            using Some by (simp add: encrypt_def run Inr x fe)
          with tr2[OF e3] show ?thesis by blast
        next
          case ok: False
          let ?w4 = "put (generichash S (fc_hashkey fc) (fc_hashsize fc) (st1 @ c)) ?w3"
          have e4: "engine_calls ?w4 = engine_calls ?w2" by (simp add: engine_calls_put)
          have "\<exists>r'. encrypt S fc istr w = Some (r', ?w4)"
            using Some ok by (simp add: encrypt_def run Inr x fe Let_def)
          with tr2[OF e4] show ?thesis by blast
        qed
      qed
    qed
  qed
qed

lemma decrypt_loop_nonces:
  assumes c: "1 \<le> MACSIZE S + fc_blocksize fc"
  shows "\<exists>r w' new. decrypt_loop S fc hp buf n im ifs st w = Some (r, w') \<and> nonce_trace S n w w' new \<and>
           (\<forall>x. r = Inr x \<longrightarrow> fst (snd x) = (increment S ^^ length new) n)"
proof (induction "length (content ifs) - gpos ifs" arbitrary: buf n im ifs st w rule: less_induct)
  case less
  let ?C = "MACSIZE S + fc_blocksize fc"
  obtain buf1 ifs1 where rd: "read buf ?C ifs = (buf1, ifs1)"
    by (cases "read buf ?C ifs") auto
  show ?case
  proof (cases "\<not> failbit ifs1 \<and> \<not> im")
    case False
    then have "decrypt_loop S fc hp buf n im ifs st w = Some (Inr (buf1, n, im, ifs1, st), w)"
      by (subst decrypt_loop.simps) (auto simp add: rd)
    then show ?thesis using nonce_trace_refl[of S n w] by fastforce
  next
    case True
    then have nf: "\<not> failbit ifs1" and im: "\<not> im" by simp_all
    note pr = read_progress[OF rd nf c]
    have tg: "tellg ifs1 = (int (gpos ifs1), ifs1)" using nf pr by (simp add: tellg_def)
    obtain buf2 im1 where cut:
      "(if hp < int (gpos ifs1)
        then (resize (size_minus_off (length buf1) (int (gpos ifs1) - hp)) buf1, True)
        else (buf1, im)) = (buf2, im1)"
      by (cases "hp < int (gpos ifs1)") auto
    let ?w1 = "invoke buf2 n w"
    show ?thesis
    proof (cases "aead_decrypt S (fc_header fc) buf2 (fc_key fc) n")
      case None
      then have "decrypt_loop S fc hp buf n im ifs st w = Some (Inl Engine_throws, ?w1)"
        by (subst decrypt_loop.simps) (simp add: rd nf im tg cut Let_def)
      moreover have "nonce_trace S n w ?w1 [(buf2, n)]"
        by (rule nonce_trace_one) (simp add: engine_calls_invoke)
      ultimately show ?thesis by blast
    next
      case (Some x)
      let ?w2 = "put x ?w1"
      have e2: "engine_calls ?w2 = engine_calls w @ [(buf2, n)]"
        by (simp add: engine_calls_put engine_calls_invoke)
      show ?thesis
      proof (cases "obad (ostr ?w2)")
        case True
        then have "decrypt_loop S fc hp buf n im ifs st w =
                     Some (Inl Decrypt_error_writing_full_chunk, ?w2)"
          by (subst decrypt_loop.simps) (simp add: rd nf im tg cut Some Let_def)
        moreover have "nonce_trace S n w ?w2 [(buf2, n)]"
          by (rule nonce_trace_one) (rule e2)
        ultimately show ?thesis by blast
      next
        case False
        from less.hyps[of ifs1 buf2 "increment S n" im1 "st @ buf2" ?w2] pr
        obtain r w' new where
          run: "decrypt_loop S fc hp buf2 (increment S n) im1 ifs1 (st @ buf2) ?w2 = Some (r, w')"
          and tr: "nonce_trace S (increment S n) ?w2 w' new"
          and fin: "\<forall>x. r = Inr x \<longrightarrow> fst (snd x) = (increment S ^^ length new) (increment S n)"
          by blast
        have "decrypt_loop S fc hp buf n im ifs st w = Some (r, w')"
          by (subst decrypt_loop.simps) (simp add: rd nf im tg cut Some False Let_def run)
        moreover have "nonce_trace S n w w' ((buf2, n) # new)"
          by (rule nonce_trace_step[OF e2 tr])
        moreover have "\<forall>x. r = Inr x \<longrightarrow> fst (snd x) = (increment S ^^ length ((buf2, n) # new)) n"
          using fin by (simp add: funpow_swap1)
        ultimately show ?thesis by blast
      qed
    qed
  qed
qed

lemma decrypt_final_calls:
  "\<exists>r w'. decrypt_final S fc hp ct rn im ifs st w = (r, w') \<and>
     (engine_calls w' = engine_calls w \<or> (\<exists>b. engine_calls w' = engine_calls w @ [(b, rn)]))"
proof (cases "\<not> im \<and> gcount ifs \<noteq> 0")
  case False
  then have "decrypt_final S fc hp ct rn im ifs st w = (Inr st, w)"
    by (auto simp add: decrypt_final_def)
  then show ?thesis by simp
next
  case True
  obtain cur ifs1 where tg: "tellg ifs = (cur, ifs1)" by (cases "tellg ifs") auto
  define ct1 where "ct1 = (if gcount ifs \<noteq> length ct then resize (gcount ifs) ct else ct)"
  define ct2 where "ct2 =
     (if cur > hp then resize (size_minus_off (length ct1) (cur - hp)) ct1
      else if cur = - 1
      then (if length ct1 > fc_hashsize fc
            then resize (length ct1 - fc_hashsize fc) ct1 else [])
      else ct1)"
  have fe: "decrypt_final S fc hp ct rn im ifs st w =
              (case aead_decrypt S (fc_header fc) ct2 (fc_key fc) rn of
                 None \<Rightarrow> (Inl Engine_throws, invoke ct2 rn w)
               | Some x \<Rightarrow> if obad (ostr (put x (invoke ct2 rn w)))
                          then (Inl Decrypt_error_writing_final_chunk, put x (invoke ct2 rn w))
                          else (Inr (st @ ct2), put x (invoke ct2 rn w)))"
    unfolding decrypt_final_def Let_def tg prod.case ct1_def[symmetric] ct2_def[symmetric]
    using True by (simp split: option.splits)
  show ?thesis
    unfolding fe
    by (cases "aead_decrypt S (fc_header fc) ct2 (fc_key fc) rn")
       (auto simp add: engine_calls_invoke engine_calls_put)
qed

lemma decrypt_nonces:
  assumes "1 \<le> fc_blocksize fc"
  shows "\<exists>r w' new. decrypt S fc ifs w = Some (r, w') \<and> nonce_trace S (fc_nonce fc) w w' new"
proof (cases "decrypt_fetch_hash fc ifs")
  case (Inl e)
  then have "decrypt S fc ifs w = Some (Inl e, w)" by (simp add: decrypt_def)
  then show ?thesis using nonce_trace_refl[of S "fc_nonce fc" w] by blast
next
  case (Inr t)
  obtain hp saved ifs1 where t: "t = (hp, saved, ifs1)" by (cases t) auto
  have c: "1 \<le> MACSIZE S + fc_blocksize fc" using assms by simp
  from decrypt_loop_nonces[OF c, of hp "replicate (MACSIZE S + fc_blocksize fc) 0" "fc_nonce fc"
      False ifs1 "[]" w]
  obtain r w1 new where
    run: "decrypt_loop S fc hp (replicate (MACSIZE S + fc_blocksize fc) 0) (fc_nonce fc) False ifs1 [] w
            = Some (r, w1)"
    and tr: "nonce_trace S (fc_nonce fc) w w1 new"
    and fin: "\<forall>x. r = Inr x \<longrightarrow> fst (snd x) = (increment S ^^ length new) (fc_nonce fc)"
    by blast
  show ?thesis
  proof (cases r)
    case (Inl e)
    then have "decrypt S fc ifs w = Some (Inl e, w1)" by (simp add: decrypt_def Inr t run)
    with tr show ?thesis by blast
  next
    case r: (Inr x)
    obtain ct rn im ifs2 st1 where x: "x = (ct, rn, im, ifs2, st1)" by (cases x) auto
    have rn: "rn = (increment S ^^ length new) (fc_nonce fc)" using fin r x by simp
    from decrypt_final_calls[of S fc hp ct rn im ifs2 st1 w1]
    obtain r2 w2 where fe: "decrypt_final S fc hp ct rn im ifs2 st1 w1 = (r2, w2)"
      and calls: "engine_calls w2 = engine_calls w1 \<or> (\<exists>b. engine_calls w2 = engine_calls w1 @ [(b, rn)])"
      by blast
    have "\<exists>r'. decrypt S fc ifs w = Some (r', w2)"
      by (cases r2) (simp_all add: decrypt_def Inr t run r x fe Let_def)
    moreover have "\<exists>new'. nonce_trace S (fc_nonce fc) w w2 new'"
    proof (rule disjE[OF calls])
      assume "engine_calls w2 = engine_calls w1"
      then have "nonce_trace S (fc_nonce fc) w w2 new" using tr by (simp add: nonce_trace_def)
      then show ?thesis by blast
    next
      assume "\<exists>b. engine_calls w2 = engine_calls w1 @ [(b, rn)]"
      then obtain b where "engine_calls w2 = engine_calls w1 @ [(b, (increment S ^^ length new) (fc_nonce fc))]"
        unfolding rn by blast
      from nonce_trace_snoc[OF tr this] show ?thesis by blast
    qed
    ultimately show ?thesis by blast
  qed
qed

subsection \<open>The Engine verifies the blocks it has made\<close>

lemma verified_seal_blocks:
  "engine_ok S \<Longrightarrow> length (fc_key fc) = KEYSIZE_AEAD S \<Longrightarrow>
   verified S fc (zip (seal_blocks S fc n cs) (nonces S n (length cs)))"
  by (induction cs arbitrary: n) (simp_all add: verified_Nil verified_Cons engine_ok_open)

section \<open>The claims\<close>

text \<open>
  Claim C4. Construction fails whenever a precondition is violated, a hash size
  outside \<open>[HASHSIZE_MIN, HASHSIZE_MAX]\<close> included, and succeeds on a key of the
  Engine's size, a block size of at least 1 and a hash key of a size in
  \<open>[HASHKEYSIZE_MIN, HASHKEYSIZE_MAX]\<close>.

  The constructor has no check of the hash size. What holds is the second half,
  for every hash size: with the other three preconditions the constructor
  returns the object, whatever \<open>hashsize\<close> is. The witness is a hash size of 0,
  below \<open>HASHSIZE_MIN\<close>.
\<close>

theorem constructor_accepts_any_hashsize:
  assumes "length key = KEYSIZE_AEAD S" and "1 \<le> blocksize"
    and "HASHKEYSIZE_MIN S \<le> length hashkey" and "length hashkey \<le> HASHKEYSIZE_MAX S"
  shows "FileCryptor S key nonce blocksize hashkey hashsize =
           Inr \<lparr>fc_key = key, fc_hashkey = hashkey, fc_nonce = nonce, fc_header = [],
                fc_blocksize = blocksize, fc_hashsize = hashsize\<rparr>"
  using assms by (simp add: FileCryptor_def)

theorem constructor_accepts_any_hashsize_witness:
  "FileCryptor toy (replicate 32 1) 0 16 (replicate 16 2) 0 =
     Inr \<lparr>fc_key = replicate 32 1, fc_hashkey = replicate 16 2, fc_nonce = 0, fc_header = [],
          fc_blocksize = 16, fc_hashsize = 0\<rparr>
   \<and> \<not> HASHSIZE_MIN toy \<le> 0"
  using constructor_accepts_any_hashsize[of "replicate 32 1" toy 16 "replicate 16 2" 0 0]
  by (simp add: toy_def)

text \<open>
  Claim C8. On every input shorter than \<open>hashsize\<close> bytes, the empty input
  included, \<open>decrypt\<close> aborts before it processes any ciphertext block: the seek
  to the start of the saved hash fails, the exception \<^verbatim>\<open>can't seek to the end for
  hash\<close> is thrown, nothing has been written to the sink and the Engine has not been
  invoked. This holds for any state of the stream and of the sink.
\<close>

theorem decrypt_too_short:
  assumes "length (content ifs) < fc_hashsize fc" and "fc_hashsize fc \<le> 2 ^ 63"
  shows "decrypt S fc ifs w = Some (Inl Decrypt_cant_seek_to_the_end_for_hash, w)"
  using assms by (simp add: decrypt_def fetch_hash_short)

theorem decrypt_too_short_witness:
  "decrypt toy (toy_fc 16 32) (strm [] 0 0) (sink [] []) =
     Some (Inl Decrypt_cant_seek_to_the_end_for_hash, sink [] [])"
  using decrypt_too_short[of "strm [] 0 0" "toy_fc 16 32" toy "sink [] []"]
  by (simp add: strm_def toy_fc_def)

text \<open>
  Claim C9. \<open>encrypt\<close> is deterministic: two runs on the same plaintext with the
  same object (key, initial nonce, block size, hash key and hash size) write the
  same bytes. The two sources may be different streams, at different positions,
  as long as the bytes from the position on are the same, and the two sinks may
  hold different bytes before the run: the bytes \<open>a\<close> appended are the same.
\<close>

theorem encrypt_deterministic:
  assumes "engine_ok S" and "length (fc_key fc) = KEYSIZE_AEAD S" and "1 \<le> fc_blocksize fc"
    and "p \<le> length d" and "p' \<le> length d'" and "drop p d = drop p' d'"
  shows "\<exists>a calls calls'.
           encrypt S fc (strm d p g) (sink ws cs) = Some (Inr (), sink (ws @ a) calls) \<and>
           encrypt S fc (strm d' p' g') (sink ws' cs') = Some (Inr (), sink (ws' @ a) calls')"
  using encrypt_run[OF assms(1,2,3,4), of g ws cs] encrypt_run[OF assms(1,2,3,5), of g' ws' cs']
  unfolding assms(6) by blast

theorem encrypt_deterministic_witness:
  "\<exists>a calls calls'.
     encrypt toy (toy_fc 4 16) (strm [1, 2, 3, 4, 5] 0 0) (sink [] []) =
       Some (Inr (), sink ([] @ a) calls) \<and>
     encrypt toy (toy_fc 4 16) (strm [9, 9, 1, 2, 3, 4, 5] 2 7) (sink [8] []) =
       Some (Inr (), sink ([8] @ a) calls')"
  by (rule encrypt_deterministic[OF toy_engine_ok]) (simp_all add: toy_def toy_fc_def)

text \<open>
  Claim C6. For every source, the bytes that \<open>encrypt\<close> writes are the ciphertext
  blocks one after the other, then exactly \<open>hashsize\<close> bytes that are the keyed
  hash of all the bytes written before them. There is one block per chunk of
  \<open>blocksize\<close> plaintext bytes: the chunks concatenate to the plaintext, each has
  between 1 and \<open>blocksize\<close> bytes, all but the last have \<open>blocksize\<close> bytes, and
  the block of a chunk is \<open>MACSIZE\<close> bytes longer than the chunk. The length of
  the artifact is the sum of the lengths of the blocks plus \<open>hashsize\<close>.

  The source is a stream in good state at any position, the sink is in good
  state without limit, and the Engine and the hash keep their contracts.
\<close>

theorem encrypt_artifact_layout:
  assumes "engine_ok S" "hash_ok S" "length (fc_key fc) = KEYSIZE_AEAD S"
    "1 \<le> fc_blocksize fc" "p \<le> length d"
  shows "(\<exists>calls.
           encrypt S fc (strm d p g) (sink ws cs) =
             Some (Inr (),
               sink (ws @ concat (seal_blocks S fc (fc_nonce fc) (chunks (fc_blocksize fc) (drop p d)))
                        @ generichash S (fc_hashkey fc) (fc_hashsize fc)
                            (concat (seal_blocks S fc (fc_nonce fc) (chunks (fc_blocksize fc) (drop p d)))))
                    calls))
       \<and> concat (chunks (fc_blocksize fc) (drop p d)) = drop p d
       \<and> list_all (\<lambda>c. 1 \<le> length c \<and> length c \<le> fc_blocksize fc) (chunks (fc_blocksize fc) (drop p d))
       \<and> list_all (\<lambda>c. length c = fc_blocksize fc) (butlast (chunks (fc_blocksize fc) (drop p d)))
       \<and> map length (seal_blocks S fc (fc_nonce fc) (chunks (fc_blocksize fc) (drop p d)))
           = map (\<lambda>c. MACSIZE S + length c) (chunks (fc_blocksize fc) (drop p d))
       \<and> length (generichash S (fc_hashkey fc) (fc_hashsize fc)
                   (concat (seal_blocks S fc (fc_nonce fc) (chunks (fc_blocksize fc) (drop p d)))))
           = fc_hashsize fc
       \<and> length (concat (seal_blocks S fc (fc_nonce fc) (chunks (fc_blocksize fc) (drop p d)))
                        @ generichash S (fc_hashkey fc) (fc_hashsize fc)
                            (concat (seal_blocks S fc (fc_nonce fc) (chunks (fc_blocksize fc) (drop p d)))))
           = sum_list (map length (seal_blocks S fc (fc_nonce fc) (chunks (fc_blocksize fc) (drop p d))))
             + fc_hashsize fc"
proof -
  have b: "0 < fc_blocksize fc" using assms(4) by simp
  have h: "\<And>m. length (generichash S (fc_hashkey fc) (fc_hashsize fc) m) = fc_hashsize fc"
    using assms(2) by (simp add: hash_ok_def)
  have 1: "\<exists>calls.
           encrypt S fc (strm d p g) (sink ws cs) =
             Some (Inr (),
               sink (ws @ concat (seal_blocks S fc (fc_nonce fc) (chunks (fc_blocksize fc) (drop p d)))
                        @ generichash S (fc_hashkey fc) (fc_hashsize fc)
                            (concat (seal_blocks S fc (fc_nonce fc) (chunks (fc_blocksize fc) (drop p d)))))
                    calls)"
    using encrypt_run[OF assms(1,3,4,5), of g ws cs] unfolding artifact_def Let_def
    by (intro exI) simp
  have 2: "list_all (\<lambda>c. 1 \<le> length c \<and> length c \<le> fc_blocksize fc) (chunks (fc_blocksize fc) (drop p d))"
    unfolding list_all_iff using chunks_lengths[OF b] by blast
  have 3: "list_all (\<lambda>c. length c = fc_blocksize fc) (butlast (chunks (fc_blocksize fc) (drop p d)))"
    unfolding list_all_iff using chunks_butlast[OF b] by blast
  show ?thesis
    using 1 2 3
    by (simp only: chunks_concat[OF b] seal_blocks_lengths[OF assms(1,3)] h length_append
        length_concat simp_thms)
qed

theorem encrypt_artifact_layout_witness:
  "encrypt toy (toy_fc 4 16) (strm [1, 2, 3, 4, 5] 0 0) (sink [] []) =
     Some (Inr (),
       sink (replicate 16 42 @ [1, 2, 3, 4] @ replicate 16 38 @ [5] @ replicate 16 47)
            [([1, 2, 3, 4], 0), ([5], 1)])
   \<and> chunks 4 [1, 2, 3, 4, 5 :: 8 word] = [[1, 2, 3, 4], [5]]
   \<and> seal_blocks toy (toy_fc 4 16) 0 (chunks 4 [1, 2, 3, 4, 5]) =
       [replicate 16 42 @ [1, 2, 3, 4], replicate 16 38 @ [5]]
   \<and> generichash toy (replicate 16 2) 16
        (concat (seal_blocks toy (toy_fc 4 16) 0 (chunks 4 [1, 2, 3, 4, 5]))) = replicate 16 47
   \<and> length (replicate 16 (42 :: 8 word) @ [1, 2, 3, 4] @ replicate 16 38 @ [5] @ replicate 16 47)
       = (16 + 4) + (16 + 1) + 16"
proof -
  have k: "length (fc_key (toy_fc 4 16)) = KEYSIZE_AEAD toy" by (simp add: toy_fc_def toy_def)
  have b: "1 \<le> fc_blocksize (toy_fc 4 16)" by (simp add: toy_fc_def)
  have p: "0 \<le> length [1, 2, 3, 4, 5 :: 8 word]" by simp
  note T = encrypt_artifact_layout[OF toy_engine_ok toy_hash_ok k b p, of 0 "[]" "[]"]
  have e: "encrypt toy (toy_fc 4 16) (strm [1, 2, 3, 4, 5] 0 0) (sink [] []) =
     Some (Inr (),
       sink (replicate 16 42 @ [1, 2, 3, 4] @ replicate 16 38 @ [5] @ replicate 16 47)
            [([1, 2, 3, 4], 0), ([5], 1)])"
    by code_simp
  have c: "chunks 4 [1, 2, 3, 4, 5 :: 8 word] = [[1, 2, 3, 4], [5]]"
    by code_simp
  have s: "seal_blocks toy (toy_fc 4 16) 0 (chunks 4 [1, 2, 3, 4, 5]) =
       [replicate 16 42 @ [1, 2, 3, 4], replicate 16 38 @ [5]]"
    by code_simp
  have h: "generichash toy (replicate 16 2) 16
        (concat (seal_blocks toy (toy_fc 4 16) 0 (chunks 4 [1, 2, 3, 4, 5]))) = replicate 16 47"
    by code_simp
  from T e c s h show ?thesis by simp
qed


text \<open>
  Claim C7. \<open>encrypt\<close> and \<open>decrypt\<close> each start their running nonce from the
  initial nonce of the object and increment it once per block, so that the
  block number \<open>i\<close> is produced by \<open>encrypt\<close> and consumed by \<open>decrypt\<close> under the
  same nonce, the initial nonce incremented \<open>i\<close> times.

  In the list of Engine invocations of \<open>encrypt\<close> on a plaintext, the invocation
  number \<open>i\<close> is on the chunk number \<open>i\<close> under that nonce, and gives the block
  number \<open>i\<close>; in the list of \<open>decrypt\<close> on the artifact, the invocation number
  \<open>i\<close> is on the block number \<open>i\<close> under the same nonce (what may follow the
  blocks is \<open>extra\<close>). And on every run of either function, from any state of
  the stream and of the sink and with any Engine, the function ends and its
  invocation number \<open>i\<close> of the Engine is under the initial nonce incremented
  \<open>i\<close> times. Both functions take the object as a value they only read: the
  stored nonce is the same before and after.
\<close>

theorem running_nonce_discipline:
  assumes "engine_ok S" and "hash_ok S" and "length (fc_key fc) = KEYSIZE_AEAD S"
    and "1 \<le> fc_blocksize fc" and "fits_size_t S fc"
  shows "\<exists>ws1 r ws2 extra.
           encrypt S fc (strm P 0 g) (sink ws cs) =
             Some (Inr (),
               sink ws1 (cs @ zip (chunks (fc_blocksize fc) P)
                               (nonces S (fc_nonce fc) (length (chunks (fc_blocksize fc) P)))))
         \<and> decrypt S fc (strm (artifact S fc P) p' g') (sink ws' cs') =
             Some (r,
               sink ws2 (cs' @ zip (seal_blocks S fc (fc_nonce fc) (chunks (fc_blocksize fc) P))
                                (nonces S (fc_nonce fc) (length (chunks (fc_blocksize fc) P)))
                            @ extra))
         \<and> (\<forall>i < length (chunks (fc_blocksize fc) P).
               nonces S (fc_nonce fc) (length (chunks (fc_blocksize fc) P)) ! i
                 = (increment S ^^ i) (fc_nonce fc) \<and>
               seal_blocks S fc (fc_nonce fc) (chunks (fc_blocksize fc) P) ! i
                 = seal S fc ((increment S ^^ i) (fc_nonce fc)) (chunks (fc_blocksize fc) P ! i))
         \<and> (\<forall>istr w. \<exists>r w' new.
               encrypt S fc istr w = Some (r, w') \<and> engine_calls w' = engine_calls w @ new \<and>
               (\<forall>i < length new. snd (new ! i) = (increment S ^^ i) (fc_nonce fc)))
         \<and> (\<forall>ifs w. \<exists>r w' new.
               decrypt S fc ifs w = Some (r, w') \<and> engine_calls w' = engine_calls w @ new \<and>
               (\<forall>i < length new. snd (new ! i) = (increment S ^^ i) (fc_nonce fc)))"
proof -
  let ?B = "fc_blocksize fc"
  let ?k = "length (chunks ?B P)"
  let ?Cs = "seal_blocks S fc (fc_nonce fc) (chunks ?B P)"
  let ?ns = "nonces S (fc_nonce fc) ?k"
  have ldg: "length (generichash S (fc_hashkey fc) (fc_hashsize fc) (concat ?Cs)) = fc_hashsize fc"
    using assms(2) by (simp add: hash_ok_def)
  have c: "1 \<le> MACSIZE S + ?B" using assms(4) by simp
  have e: "encrypt S fc (strm P 0 g) (sink ws cs) =
             Some (Inr (), sink (ws @ artifact S fc P) (cs @ zip (chunks ?B P) ?ns))"
    using encrypt_run[OF assms(1,3,4), of 0 P g ws cs] by simp
  have d: "\<exists>r ws2 extra. decrypt S fc (strm (artifact S fc P) p' g') (sink ws' cs') =
             Some (r, sink ws2 (cs' @ zip ?Cs ?ns @ extra))"
  proof -
    have a: "artifact S fc P = concat ?Cs @ generichash S (fc_hashkey fc) (fc_hashsize fc) (concat ?Cs)"
      by (simp add: artifact_def Let_def)
    note X = decrypt_blocks_digest[OF assms(1,3,4,5) ldg, of P p' g' ws' cs', folded a]
    show ?thesis
    proof (cases "length P mod ?B \<noteq> 0 \<or> fc_hashsize fc = 0")
      case True
      then have "decrypt S fc (strm (artifact S fc P) p' g') (sink ws' cs') =
             Some (Inr (), sink (ws' @ P) (cs' @ zip ?Cs ?ns @ []))"
        unfolding X by simp
      then show ?thesis by blast
    next
      case False
      show ?thesis
      proof (cases "aead_decrypt S (fc_header fc) [] (fc_key fc) ((increment S ^^ ?k) (fc_nonce fc))")
        case None
        then have "decrypt S fc (strm (artifact S fc P) p' g') (sink ws' cs') =
             Some (Inl Engine_throws, sink (ws' @ P)
                (cs' @ zip ?Cs ?ns @ [([], (increment S ^^ ?k) (fc_nonce fc))]))"
          unfolding X using False by simp
        then show ?thesis by blast
      next
        case (Some x)
        then have "decrypt S fc (strm (artifact S fc P) p' g') (sink ws' cs') =
             Some (Inr (), sink (ws' @ P @ x)
                (cs' @ zip ?Cs ?ns @ [([], (increment S ^^ ?k) (fc_nonce fc))]))"
          unfolding X using False by simp
        then show ?thesis by blast
      qed
    qed
  qed
  have n: "\<forall>i < ?k. ?ns ! i = (increment S ^^ i) (fc_nonce fc) \<and>
               ?Cs ! i = seal S fc ((increment S ^^ i) (fc_nonce fc)) (chunks ?B P ! i)"
    by (simp add: nth_nonces seal_blocks_nth)
  have tr: "\<And>w w' new. nonce_trace S (fc_nonce fc) w w' new \<Longrightarrow>
               engine_calls w' = engine_calls w @ new \<and>
               (\<forall>i < length new. snd (new ! i) = (increment S ^^ i) (fc_nonce fc))"
  proof -
    fix w w' :: "'a world" and new :: "(data_t \<times> 'a) list"
    assume t: "nonce_trace S (fc_nonce fc) w w' new"
    then have ns: "map snd new = nonces S (fc_nonce fc) (length new)"
      by (simp add: nonce_trace_def)
    have "\<forall>i < length new. snd (new ! i) = (increment S ^^ i) (fc_nonce fc)"
    proof (intro allI impI)
      fix i assume i: "i < length new"
      then have "snd (new ! i) = map snd new ! i" by simp
      also have "\<dots> = (increment S ^^ i) (fc_nonce fc)"
        unfolding ns using i by (rule nth_nonces)
      finally show "snd (new ! i) = (increment S ^^ i) (fc_nonce fc)" .
    qed
    with t show "engine_calls w' = engine_calls w @ new \<and>
               (\<forall>i < length new. snd (new ! i) = (increment S ^^ i) (fc_nonce fc))"
      by (simp add: nonce_trace_def)
  qed
  have ge: "\<forall>istr w. \<exists>r w' new.
               encrypt S fc istr w = Some (r, w') \<and> engine_calls w' = engine_calls w @ new \<and>
               (\<forall>i < length new. snd (new ! i) = (increment S ^^ i) (fc_nonce fc))"
    using encrypt_nonces[OF assms(4), of S] tr by blast
  have gd: "\<forall>ifs w. \<exists>r w' new.
               decrypt S fc ifs w = Some (r, w') \<and> engine_calls w' = engine_calls w @ new \<and>
               (\<forall>i < length new. snd (new ! i) = (increment S ^^ i) (fc_nonce fc))"
    using decrypt_nonces[OF assms(4), of S] tr by blast
  from e d n ge gd show ?thesis by blast
qed

theorem running_nonce_discipline_witness:
  "encrypt toy (toy_fc 4 16) (strm [1, 2, 3, 4, 5] 0 0) (sink [] []) =
     Some (Inr (),
       sink (artifact toy (toy_fc 4 16) [1, 2, 3, 4, 5]) [([1, 2, 3, 4], 0), ([5], 1)])
   \<and> decrypt toy (toy_fc 4 16) (strm (artifact toy (toy_fc 4 16) [1, 2, 3, 4, 5]) 0 0) (sink [] []) =
     Some (Inr (),
       sink [1, 2, 3, 4, 5]
         [(seal toy (toy_fc 4 16) 0 [1, 2, 3, 4], 0), (seal toy (toy_fc 4 16) 1 [5], 1)])
   \<and> nonces toy (fc_nonce (toy_fc 4 16)) 2 = [0, 1]"
proof -
  have k: "length (fc_key (toy_fc 4 16)) = KEYSIZE_AEAD toy" by (simp add: toy_fc_def toy_def)
  have b: "1 \<le> fc_blocksize (toy_fc 4 16)" by (simp add: toy_fc_def)
  have f: "fits_size_t toy (toy_fc 4 16)" by (simp add: toy_fc_fits)
  note T = running_nonce_discipline[OF toy_engine_ok toy_hash_ok k b f,
      of "[1, 2, 3, 4, 5]" 0 "[]" "[]" 0 0 "[]" "[]"]
  have e: "encrypt toy (toy_fc 4 16) (strm [1, 2, 3, 4, 5] 0 0) (sink [] []) =
     Some (Inr (),
       sink (artifact toy (toy_fc 4 16) [1, 2, 3, 4, 5]) [([1, 2, 3, 4], 0), ([5], 1)])"
    by code_simp
  have d: "decrypt toy (toy_fc 4 16) (strm (artifact toy (toy_fc 4 16) [1, 2, 3, 4, 5]) 0 0) (sink [] []) =
     Some (Inr (),
       sink [1, 2, 3, 4, 5]
         [(seal toy (toy_fc 4 16) 0 [1, 2, 3, 4], 0), (seal toy (toy_fc 4 16) 1 [5], 1)])"
    by code_simp
  have n: "nonces toy (fc_nonce (toy_fc 4 16)) 2 = [0, 1]"
    by code_simp
  from T e d n show ?thesis by blast
qed

text \<open>
  Claim C5. After the blocks, \<open>decrypt\<close> compares the hash it has computed with the
  saved one, the last \<open>hashsize\<close> bytes of the input: when they differ it throws
  \<^verbatim>\<open>hash mismatch\<close>, although the Engine has verified every block, and when they are
  equal it returns.

  This does not hold when the bytes before the saved hash are a whole number of
  full ciphertext blocks (none, one, several). Take the blocks of a plaintext
  whose length is a multiple of \<open>blocksize\<close>, followed by any \<open>hashsize\<close> bytes
  \<open>dg\<close>, the right hash or a wrong one. The Engine verifies every block
  (\<open>verified\<close>) and the plaintext is written; then \<open>decrypt\<close> invokes the Engine once
  more, on the empty buffer, and with an Engine that throws on a buffer shorter
  than a tag it throws there: the comparison is not reached, so that the right
  hash gives no success and a wrong hash gives no \<^verbatim>\<open>hash mismatch\<close>. The last two
  conjuncts say that the blocks are the bytes before the last \<open>hashsize\<close> bytes of
  the input and \<open>dg\<close> is the saved hash.
\<close>

theorem digest_check_unreached_on_whole_blocks:
  assumes "engine_ok S" and "engine_rejects_short S" and "1 \<le> MACSIZE S"
    and "length (fc_key fc) = KEYSIZE_AEAD S" and "1 \<le> fc_blocksize fc"
    and "fits_size_t S fc" and "1 \<le> fc_hashsize fc"
    and "length dg = fc_hashsize fc" and "length P mod fc_blocksize fc = 0"
  shows "decrypt S fc
           (strm (concat (seal_blocks S fc (fc_nonce fc) (chunks (fc_blocksize fc) P)) @ dg) p g)
           (sink ws cs) =
         Some (Inl Engine_throws,
           sink (ws @ P)
             (cs @ zip (seal_blocks S fc (fc_nonce fc) (chunks (fc_blocksize fc) P))
                       (nonces S (fc_nonce fc) (length (chunks (fc_blocksize fc) P)))
                 @ [([], (increment S ^^ length (chunks (fc_blocksize fc) P)) (fc_nonce fc))]))
       \<and> verified S fc
           (zip (seal_blocks S fc (fc_nonce fc) (chunks (fc_blocksize fc) P))
                (nonces S (fc_nonce fc) (length (chunks (fc_blocksize fc) P))))
       \<and> concat (seal_blocks S fc (fc_nonce fc) (chunks (fc_blocksize fc) P)) =
           take (length (concat (seal_blocks S fc (fc_nonce fc) (chunks (fc_blocksize fc) P)) @ dg)
                   - fc_hashsize fc)
             (concat (seal_blocks S fc (fc_nonce fc) (chunks (fc_blocksize fc) P)) @ dg)
       \<and> dg =
           drop (length (concat (seal_blocks S fc (fc_nonce fc) (chunks (fc_blocksize fc) P)) @ dg)
                   - fc_hashsize fc)
             (concat (seal_blocks S fc (fc_nonce fc) (chunks (fc_blocksize fc) P)) @ dg)"
proof -
  have rej: "\<And>n. aead_decrypt S (fc_header fc) [] (fc_key fc) n = None"
    by (rule engine_rejects_empty[OF assms(2,3)])
  have 1: "decrypt S fc
           (strm (concat (seal_blocks S fc (fc_nonce fc) (chunks (fc_blocksize fc) P)) @ dg) p g)
           (sink ws cs) =
         Some (Inl Engine_throws,
           sink (ws @ P)
             (cs @ zip (seal_blocks S fc (fc_nonce fc) (chunks (fc_blocksize fc) P))
                       (nonces S (fc_nonce fc) (length (chunks (fc_blocksize fc) P)))
                 @ [([], (increment S ^^ length (chunks (fc_blocksize fc) P)) (fc_nonce fc))]))"
    using decrypt_blocks_digest[OF assms(1,4,5,6,8), of P p g ws cs] assms(7,9) rej
    by simp
  have 2: "verified S fc
           (zip (seal_blocks S fc (fc_nonce fc) (chunks (fc_blocksize fc) P))
                (nonces S (fc_nonce fc) (length (chunks (fc_blocksize fc) P))))"
    by (rule verified_seal_blocks[OF assms(1,4)])
  show ?thesis using 1 2 by (simp add: assms(8))
qed

theorem digest_check_unreached_on_whole_blocks_witness:
  "decrypt toy (toy_fc 16 32) (strm (artifact toy (toy_fc 16 32) (replicate 16 7)) 0 0) (sink [] []) =
     Some (Inl Engine_throws,
       sink (replicate 16 7) [(seal toy (toy_fc 16 32) 0 (replicate 16 7), 0), ([], 1)])
   \<and> decrypt toy (toy_fc 16 32)
        (strm (seal toy (toy_fc 16 32) 0 (replicate 16 7) @ replicate 32 0) 0 0) (sink [] []) =
     Some (Inl Engine_throws,
       sink (replicate 16 7) [(seal toy (toy_fc 16 32) 0 (replicate 16 7), 0), ([], 1)])
   \<and> artifact toy (toy_fc 16 32) (replicate 16 7) =
       seal toy (toy_fc 16 32) 0 (replicate 16 7)
         @ generichash toy (fc_hashkey (toy_fc 16 32)) 32 (seal toy (toy_fc 16 32) 0 (replicate 16 7))
   \<and> generichash toy (fc_hashkey (toy_fc 16 32)) 32 (seal toy (toy_fc 16 32) 0 (replicate 16 7))
       \<noteq> replicate 32 0
   \<and> verified toy (toy_fc 16 32) [(seal toy (toy_fc 16 32) 0 (replicate 16 7), 0)]
   \<and> aead_decrypt toy (fc_header (toy_fc 16 32)) (seal toy (toy_fc 16 32) 0 (replicate 16 7))
        (fc_key (toy_fc 16 32)) 0 = Some (replicate 16 7)"
proof -
  have m: "1 \<le> MACSIZE toy" by (simp add: toy_def)
  have k: "length (fc_key (toy_fc 16 32)) = KEYSIZE_AEAD toy" by (simp add: toy_fc_def toy_def)
  have b: "1 \<le> fc_blocksize (toy_fc 16 32)" by (simp add: toy_fc_def)
  have f: "fits_size_t toy (toy_fc 16 32)" by (simp add: toy_fc_fits)
  have h: "1 \<le> fc_hashsize (toy_fc 16 32)" by (simp add: toy_fc_def)
  have d: "length (replicate 32 (0 :: 8 word)) = fc_hashsize (toy_fc 16 32)" by (simp add: toy_fc_def)
  have l: "length (replicate 16 (7 :: 8 word)) mod fc_blocksize (toy_fc 16 32) = 0"
    by (simp add: toy_fc_def)
  note T = digest_check_unreached_on_whole_blocks[OF toy_engine_ok toy_engine_rejects_short
      m k b f h d l, of 0 0 "[]" "[]"]
  have 1: "decrypt toy (toy_fc 16 32) (strm (artifact toy (toy_fc 16 32) (replicate 16 7)) 0 0) (sink [] []) =
     Some (Inl Engine_throws,
       sink (replicate 16 7) [(seal toy (toy_fc 16 32) 0 (replicate 16 7), 0), ([], 1)])"
    by code_simp
  have 2: "decrypt toy (toy_fc 16 32)
        (strm (seal toy (toy_fc 16 32) 0 (replicate 16 7) @ replicate 32 0) 0 0) (sink [] []) =
     Some (Inl Engine_throws,
       sink (replicate 16 7) [(seal toy (toy_fc 16 32) 0 (replicate 16 7), 0), ([], 1)])"
    by code_simp
  have 3: "artifact toy (toy_fc 16 32) (replicate 16 7) =
       seal toy (toy_fc 16 32) 0 (replicate 16 7)
         @ generichash toy (fc_hashkey (toy_fc 16 32)) 32 (seal toy (toy_fc 16 32) 0 (replicate 16 7))"
    by code_simp
  have 4: "generichash toy (fc_hashkey (toy_fc 16 32)) 32 (seal toy (toy_fc 16 32) 0 (replicate 16 7))
       \<noteq> replicate 32 0"
    by code_simp
  have 5: "verified toy (toy_fc 16 32) [(seal toy (toy_fc 16 32) 0 (replicate 16 7), 0)]"
    by (simp add: verified_def engine_ok_open[OF toy_engine_ok k])
  have 6: "aead_decrypt toy (fc_header (toy_fc 16 32)) (seal toy (toy_fc 16 32) 0 (replicate 16 7))
        (fc_key (toy_fc 16 32)) 0 = Some (replicate 16 7)"
    by (rule engine_ok_open[OF toy_engine_ok k])
  from T 1 2 3 4 5 6 show ?thesis by blast
qed

text \<open>
  What holds of the comparison, on any input long enough to hold a hash:
  \<open>decrypt\<close> ends, and when the Engine has verified every buffer it was given,
  the empty one after a whole number of full blocks included, these buffers are
  together the bytes of the input before the saved hash, the hash is computed
  over them, and the result is \<open>Inr ()\<close> if it equals the saved hash and
  \<^verbatim>\<open>hash mismatch\<close> otherwise. For blocks that end in a partial block this is
  \<open>decrypt_blocks_digest\<close>, with no condition on the Engine's answer to an empty
  buffer.
\<close>


lemma digest_check_when_all_verified:
  assumes "1 \<le> fc_blocksize fc" and "fits_size_t S fc" and "fc_hashsize fc \<le> length d"
  shows "\<exists>r new. decrypt S fc (strm d p g) (sink ws cs) =
                    Some (r, sink (ws @ opened S fc new) (cs @ new)) \<and>
           (verified S fc new \<longrightarrow>
              concat (map fst new) = take (length d - fc_hashsize fc) d \<and>
              (generichash S (fc_hashkey fc) (fc_hashsize fc) (concat (map fst new))
                 = drop (length d - fc_hashsize fc) d \<longrightarrow> r = Inr ()) \<and>
              (generichash S (fc_hashkey fc) (fc_hashsize fc) (concat (map fst new))
                 \<noteq> drop (length d - fc_hashsize fc) d \<longrightarrow> r = Inl Decrypt_hash_mismatch))"
proof -
  have c: "1 \<le> MACSIZE S + fc_blocksize fc" using assms(1) by simp
  from decrypt_general[OF c assms(2,3), of p g ws cs]
  obtain r new where
    run: "decrypt S fc (strm d p g) (sink ws cs) = Some (r, sink (ws @ opened S fc new) (cs @ new))"
    and post: "if verified S fc new
            then concat (map fst new) = take (length d - fc_hashsize fc) d \<and>
                 r = (if generichash S (fc_hashkey fc) (fc_hashsize fc)
                           (take (length d - fc_hashsize fc) d)
                         = drop (length d - fc_hashsize fc) d
                      then Inr () else Inl Decrypt_hash_mismatch)
            else r = Inl Engine_throws"
    by blast
  have "verified S fc new \<longrightarrow>
              concat (map fst new) = take (length d - fc_hashsize fc) d \<and>
              (generichash S (fc_hashkey fc) (fc_hashsize fc) (concat (map fst new))
                 = drop (length d - fc_hashsize fc) d \<longrightarrow> r = Inr ()) \<and>
              (generichash S (fc_hashkey fc) (fc_hashsize fc) (concat (map fst new))
                 \<noteq> drop (length d - fc_hashsize fc) d \<longrightarrow> r = Inl Decrypt_hash_mismatch)"
    using post by (auto split: if_splits)
  with run show ?thesis by blast
qed

lemma digest_check_when_all_verified_example:
  "decrypt toy (toy_fc 4 16) (strm (seal toy (toy_fc 4 16) 0 [1, 2, 3] @ replicate 16 0) 0 0)
     (sink [] []) =
     Some (Inl Decrypt_hash_mismatch, sink [1, 2, 3] [(seal toy (toy_fc 4 16) 0 [1, 2, 3], 0)])
   \<and> verified toy (toy_fc 4 16) [(seal toy (toy_fc 4 16) 0 [1, 2, 3], 0)]
   \<and> generichash toy (fc_hashkey (toy_fc 4 16)) 16 (seal toy (toy_fc 4 16) 0 [1, 2, 3])
       = replicate 16 134
   \<and> decrypt toy (toy_fc 4 16) (strm (seal toy (toy_fc 4 16) 0 [1, 2, 3] @ replicate 16 134) 0 0)
     (sink [] []) =
     Some (Inr (), sink [1, 2, 3] [(seal toy (toy_fc 4 16) 0 [1, 2, 3], 0)])"
proof -
  have b: "1 \<le> fc_blocksize (toy_fc 4 16)" by (simp add: toy_fc_def)
  have f: "fits_size_t toy (toy_fc 4 16)" by (simp add: toy_fc_fits)
  have k: "length (fc_key (toy_fc 4 16)) = KEYSIZE_AEAD toy" by (simp add: toy_fc_def toy_def)
  have hs: "fc_hashsize (toy_fc 4 16) = 16" by (simp add: toy_fc_def)
  have h: "fc_hashsize (toy_fc 4 16) \<le> length (seal toy (toy_fc 4 16) 0 [1, 2, 3] @ replicate 16 0)"
    by (simp add: hs)
  note T = digest_check_when_all_verified[OF b f h, of 0 0 "[]" "[]"]
  have 1: "decrypt toy (toy_fc 4 16) (strm (seal toy (toy_fc 4 16) 0 [1, 2, 3] @ replicate 16 0) 0 0)
     (sink [] []) =
     Some (Inl Decrypt_hash_mismatch, sink [1, 2, 3] [(seal toy (toy_fc 4 16) 0 [1, 2, 3], 0)])"
    by code_simp
  have 2: "verified toy (toy_fc 4 16) [(seal toy (toy_fc 4 16) 0 [1, 2, 3], 0)]"
    by (simp add: verified_def engine_ok_open[OF toy_engine_ok k])
  have 3: "generichash toy (fc_hashkey (toy_fc 4 16)) 16 (seal toy (toy_fc 4 16) 0 [1, 2, 3])
       = replicate 16 134"
    by code_simp
  have 4: "decrypt toy (toy_fc 4 16) (strm (seal toy (toy_fc 4 16) 0 [1, 2, 3] @ replicate 16 134) 0 0)
     (sink [] []) =
     Some (Inr (), sink [1, 2, 3] [(seal toy (toy_fc 4 16) 0 [1, 2, 3], 0)])"
    by code_simp
  from T 1 2 3 4 show ?thesis by blast
qed

text \<open>
  Claim C10. When \<open>decrypt\<close> fails with \<^verbatim>\<open>hash mismatch\<close>, the sink holds the
  recovered plaintext of every block, complete: the comparison is the last step,
  after every write.

  At that throw the sink is in good state; it holds what it held before, then
  the plaintexts that the Engine returned on the invocations \<open>new\<close>, in order; the
  Engine has verified all of them; and their buffers are together all the bytes
  of the input before the saved hash.
\<close>

theorem hash_mismatch_sink_complete:
  assumes "1 \<le> fc_blocksize fc" and "fits_size_t S fc"
    and "decrypt S fc (strm d p g) (sink ws cs) = Some (Inl Decrypt_hash_mismatch, w')"
  shows "\<exists>new. w' = sink (ws @ opened S fc new) (cs @ new) \<and> verified S fc new \<and>
           concat (map fst new) = take (length d - fc_hashsize fc) d"
proof -
  have c: "1 \<le> MACSIZE S + fc_blocksize fc" using assms(1) by simp
  have f2: "fc_hashsize fc \<le> 2 ^ 63" using assms(2) by (simp add: fits_size_t_def)
  have h: "fc_hashsize fc \<le> length d"
  proof (rule ccontr)
    assume "\<not> fc_hashsize fc \<le> length d"
    then have "length (content (strm d p g)) < fc_hashsize fc" by (simp add: strm_def)
    then have "decrypt S fc (strm d p g) (sink ws cs) =
                 Some (Inl Decrypt_cant_seek_to_the_end_for_hash, sink ws cs)"
      using f2 by (simp add: decrypt_def fetch_hash_short)
    with assms(3) show False by simp
  qed
  from decrypt_general[OF c assms(2) h, of p g ws cs]
  obtain r new where
    run: "decrypt S fc (strm d p g) (sink ws cs) = Some (r, sink (ws @ opened S fc new) (cs @ new))"
    and post: "if verified S fc new
            then concat (map fst new) = take (length d - fc_hashsize fc) d \<and>
                 r = (if generichash S (fc_hashkey fc) (fc_hashsize fc)
                           (take (length d - fc_hashsize fc) d)
                         = drop (length d - fc_hashsize fc) d
                      then Inr () else Inl Decrypt_hash_mismatch)
            else r = Inl Engine_throws"
    by blast
  from run assms(3) have r: "r = Inl Decrypt_hash_mismatch"
    and w: "w' = sink (ws @ opened S fc new) (cs @ new)" by simp_all
  from post r have "verified S fc new \<and> concat (map fst new) = take (length d - fc_hashsize fc) d"
    by (auto split: if_splits)
  with w show ?thesis by blast
qed

theorem hash_mismatch_sink_complete_witness:
  "decrypt toy (toy_fc 4 16)
     (strm (concat (seal_blocks toy (toy_fc 4 16) 0 (chunks 4 [1, 2, 3, 4, 5])) @ replicate 16 0) 0 0)
     (sink [] []) =
     Some (Inl Decrypt_hash_mismatch,
       sink [1, 2, 3, 4, 5]
         [(seal toy (toy_fc 4 16) 0 [1, 2, 3, 4], 0), (seal toy (toy_fc 4 16) 1 [5], 1)])
   \<and> (\<exists>new.
         sink [1, 2, 3, 4, 5]
           [(seal toy (toy_fc 4 16) 0 [1, 2, 3, 4], 0), (seal toy (toy_fc 4 16) 1 [5], 1)]
         = sink ([] @ opened toy (toy_fc 4 16) new) ([] @ new) \<and>
         verified toy (toy_fc 4 16) new \<and>
         concat (map fst new) =
           take (length (concat (seal_blocks toy (toy_fc 4 16) 0 (chunks 4 [1, 2, 3, 4, 5]))
                          @ replicate 16 (0 :: 8 word)) - fc_hashsize (toy_fc 4 16))
             (concat (seal_blocks toy (toy_fc 4 16) 0 (chunks 4 [1, 2, 3, 4, 5])) @ replicate 16 0))"
proof -
  have b: "1 \<le> fc_blocksize (toy_fc 4 16)" by (simp add: toy_fc_def)
  have f: "fits_size_t toy (toy_fc 4 16)" by (simp add: toy_fc_fits)
  have 1: "decrypt toy (toy_fc 4 16)
     (strm (concat (seal_blocks toy (toy_fc 4 16) 0 (chunks 4 [1, 2, 3, 4, 5])) @ replicate 16 0) 0 0)
     (sink [] []) =
     Some (Inl Decrypt_hash_mismatch,
       sink [1, 2, 3, 4, 5]
         [(seal toy (toy_fc 4 16) 0 [1, 2, 3, 4], 0), (seal toy (toy_fc 4 16) 1 [5], 1)])"
    by code_simp
  note T = hash_mismatch_sink_complete[OF b f 1]
  from T 1 show ?thesis by blast
qed


text \<open>
  Claim C3. When the final short read of \<open>decrypt\<close> ends at the end of the input: if
  the chunk is longer than \<open>hashsize\<close>, its last \<open>hashsize\<close> bytes are dropped and
  the rest goes to the Engine; if it is not longer, no decryption is done, so
  that the Engine is never invoked on an empty buffer.

  The first half holds and the second does not. On an input that the first read
  does not fill (not empty, shorter than \<open>MACSIZE + blocksize\<close>, long enough to
  hold a hash), the Engine is invoked exactly once, on the input without its last
  \<open>hashsize\<close> bytes: that is the stripped chunk when the input is longer than
  \<open>hashsize\<close>, and the empty buffer when the input is \<open>hashsize\<close> bytes long. The
  source has the comment \<^verbatim>\<open>XXX: what if ciphertext.empty() ?\<close> at that call.
\<close>

theorem final_chunk_engine_input:
  assumes "fits_size_t S fc" and "fc_hashsize fc \<le> length d" and "0 < length d"
    and "length d < MACSIZE S + fc_blocksize fc"
  shows "\<exists>r ws'. decrypt S fc (strm d p g) (sink ws cs) =
           Some (r, sink ws' (cs @ [(take (length d - fc_hashsize fc) d, fc_nonce fc)]))"
proof -
  let ?C = "MACSIZE S + fc_blocksize fc"
  let ?c = "take (length d - fc_hashsize fc) d"
  have f2: "fc_hashsize fc \<le> 2 ^ 63" using assms(1) by (simp add: fits_size_t_def)
  have lb: "length (replicate ?C (0 :: 8 word)) = ?C" by simp
  have a2: "length d < 0 + ?C" using assms(4) by simp
  have a4: "0 \<le> int (length d - fc_hashsize fc)" by simp
  note X = decrypt_from_short[OF lb a2 assms(3) a4, of "fc_nonce fc" "fc_hashsize fc" "[]" ws cs,
      simplified]
  show ?thesis
  proof (cases "aead_decrypt S (fc_header fc) ?c (fc_key fc) (fc_nonce fc)")
    case None
    then have "decrypt S fc (strm d p g) (sink ws cs) =
                 Some (Inl Engine_throws, sink ws (cs @ [(?c, fc_nonce fc)]))"
      using X by (simp add: decrypt_via_from fetch_hash_ok[OF assms(2) f2])
    then show ?thesis by blast
  next
    case (Some x)
    then have "decrypt S fc (strm d p g) (sink ws cs) =
                 Some (if generichash S (fc_hashkey fc) (fc_hashsize fc) ?c
                          \<noteq> drop (length d - fc_hashsize fc) d
                       then Inl Decrypt_hash_mismatch else Inr (),
                       sink (ws @ x) (cs @ [(?c, fc_nonce fc)]))"
      using X by (simp add: decrypt_via_from fetch_hash_ok[OF assms(2) f2])
    then show ?thesis by blast
  qed
qed

theorem final_chunk_engine_input_witness:
  "decrypt toy (toy_fc 16 16) (strm (replicate 16 7) 0 0) (sink [] []) =
     Some (Inl Engine_throws, sink [] [([], 0)])
   \<and> take (length (replicate 16 (7 :: 8 word)) - fc_hashsize (toy_fc 16 16)) (replicate 16 (7 :: 8 word)) = []
   \<and> decrypt toy (toy_fc 32 16)
        (strm (seal toy (toy_fc 32 16) 0 [1, 2, 3] @ replicate 16 134) 0 0) (sink [] []) =
     Some (Inr (), sink [1, 2, 3] [(seal toy (toy_fc 32 16) 0 [1, 2, 3], 0)])"
proof -
  have f: "fits_size_t toy (toy_fc 16 16)" by (simp add: toy_fc_fits)
  have h: "fc_hashsize (toy_fc 16 16) \<le> length (replicate 16 (7 :: 8 word))"
    by (simp add: toy_fc_def)
  have n: "0 < length (replicate 16 (7 :: 8 word))" by simp
  have s: "length (replicate 16 (7 :: 8 word)) < MACSIZE toy + fc_blocksize (toy_fc 16 16)"
    by (simp add: toy_fc_def toy_def)
  note T = final_chunk_engine_input[OF f h n s, of 0 0 "[]" "[]"]
  have 1: "decrypt toy (toy_fc 16 16) (strm (replicate 16 7) 0 0) (sink [] []) =
     Some (Inl Engine_throws, sink [] [([], 0)])"
    by code_simp
  have 2: "take (length (replicate 16 (7 :: 8 word)) - fc_hashsize (toy_fc 16 16)) (replicate 16 (7 :: 8 word)) = []"
    by (simp add: toy_fc_def)
  have 3: "decrypt toy (toy_fc 32 16)
        (strm (seal toy (toy_fc 32 16) 0 [1, 2, 3] @ replicate 16 134) 0 0) (sink [] []) =
     Some (Inr (), sink [1, 2, 3] [(seal toy (toy_fc 32 16) 0 [1, 2, 3], 0)])"
    by code_simp
  from T 1 2 3 show ?thesis by blast
qed

text \<open>
  Claim C2. \<open>encrypt\<close> of an empty source writes exactly \<open>hashsize\<close> bytes, the hash
  alone, and \<open>decrypt\<close> of these bytes succeeds and writes nothing.

  The first half holds: the hash of the empty byte sequence is written, and it
  has \<open>hashsize\<close> bytes. The second does not: \<open>decrypt\<close> of these bytes invokes the
  Engine on the empty buffer under the initial nonce, and with an Engine that
  throws on a buffer shorter than a tag, \<open>decrypt\<close> throws; nothing is written.
  This holds for a hash size not smaller than \<open>MACSIZE + blocksize\<close> (the first
  read is full and is cut down to nothing) and for a smaller one (the first read
  is short and the chunk is cleared).
\<close>

theorem empty_source_roundtrip_fails:
  assumes "engine_ok S" and "hash_ok S" and "engine_rejects_short S" and "1 \<le> MACSIZE S"
    and "length (fc_key fc) = KEYSIZE_AEAD S" and "1 \<le> fc_blocksize fc"
    and "fits_size_t S fc" and "1 \<le> fc_hashsize fc"
  shows "encrypt S fc (strm d (length d) g) (sink ws cs) =
           Some (Inr (), sink (ws @ generichash S (fc_hashkey fc) (fc_hashsize fc) []) cs)
       \<and> length (generichash S (fc_hashkey fc) (fc_hashsize fc) []) = fc_hashsize fc
       \<and> decrypt S fc (strm (generichash S (fc_hashkey fc) (fc_hashsize fc) []) p' g')
             (sink ws' cs') =
           Some (Inl Engine_throws, sink ws' (cs' @ [([], fc_nonce fc)]))"
proof -
  let ?dg = "generichash S (fc_hashkey fc) (fc_hashsize fc) []"
  have ldg: "length ?dg = fc_hashsize fc" using assms(2) by (simp add: hash_ok_def)
  have e: "encrypt S fc (strm d (length d) g) (sink ws cs) = Some (Inr (), sink (ws @ ?dg) cs)"
    using encrypt_run[OF assms(1,5,6), of "length d" d g ws cs]
    by (simp add: artifact_def chunks_Nil)
  have rej: "aead_decrypt S (fc_header fc) [] (fc_key fc) (fc_nonce fc) = None"
    by (rule engine_rejects_empty[OF assms(3,4)])
  have "decrypt S fc (strm ?dg p' g') (sink ws' cs') =
           Some (Inl Engine_throws, sink ws' (cs' @ [([], fc_nonce fc)]))"
    using decrypt_blocks_digest[OF assms(1,5,6,7) ldg, of "[]" p' g' ws' cs'] assms(8) rej
    by (simp add: chunks_Nil)
  with e ldg show ?thesis by blast
qed

theorem empty_source_roundtrip_fails_witness:
  "encrypt toy (toy_fc 16 32) (strm [] 0 0) (sink [] []) = Some (Inr (), sink (replicate 32 32) [])
   \<and> decrypt toy (toy_fc 16 32) (strm (replicate 32 32) 0 0) (sink [] []) =
       Some (Inl Engine_throws, sink [] [([], 0)])
   \<and> encrypt toy (toy_fc 16 16) (strm [] 0 0) (sink [] []) = Some (Inr (), sink (replicate 16 32) [])
   \<and> decrypt toy (toy_fc 16 16) (strm (replicate 16 32) 0 0) (sink [] []) =
       Some (Inl Engine_throws, sink [] [([], 0)])"
proof -
  have m: "1 \<le> MACSIZE toy" by (simp add: toy_def)
  have k: "length (fc_key (toy_fc 16 32)) = KEYSIZE_AEAD toy" by (simp add: toy_fc_def toy_def)
  have b: "1 \<le> fc_blocksize (toy_fc 16 32)" by (simp add: toy_fc_def)
  have f: "fits_size_t toy (toy_fc 16 32)" by (simp add: toy_fc_fits)
  have h: "1 \<le> fc_hashsize (toy_fc 16 32)" by (simp add: toy_fc_def)
  note T = empty_source_roundtrip_fails[OF toy_engine_ok toy_hash_ok toy_engine_rejects_short
      m k b f h, of "[]" 0 "[]" "[]" 0 0 "[]" "[]"]
  have g: "generichash toy (fc_hashkey (toy_fc 16 32)) (fc_hashsize (toy_fc 16 32)) [] =
             replicate 32 32"
    by code_simp
  have 1: "encrypt toy (toy_fc 16 16) (strm [] 0 0) (sink [] []) =
             Some (Inr (), sink (replicate 16 32) [])"
    by code_simp
  have 2: "decrypt toy (toy_fc 16 16) (strm (replicate 16 32) 0 0) (sink [] []) =
       Some (Inl Engine_throws, sink [] [([], 0)])"
    by code_simp
  have n: "fc_nonce (toy_fc 16 32) = 0" by (simp add: toy_fc_def)
  from T 1 2 show ?thesis unfolding g n by simp
qed

text \<open>
  Claim C1. For every plaintext and every valid configuration, \<open>decrypt\<close> of what
  \<open>encrypt\<close> wrote gives the plaintext back and succeeds.

  This does not hold for a plaintext whose length is a multiple of \<open>blocksize\<close>
  (the empty plaintext, one full block, several full blocks): after the blocks
  \<open>decrypt\<close> invokes the Engine once more, on the empty buffer, and with an
  Engine that throws on a buffer shorter than a tag, \<open>decrypt\<close> throws. The sink
  holds the whole plaintext at that point. The lemma after the witness is the
  round trip for the other plaintexts, those that end in a partial block.
\<close>

theorem roundtrip_fails_on_whole_blocks:
  assumes "engine_ok S" and "hash_ok S" and "engine_rejects_short S" and "1 \<le> MACSIZE S"
    and "length (fc_key fc) = KEYSIZE_AEAD S" and "1 \<le> fc_blocksize fc"
    and "fits_size_t S fc" and "1 \<le> fc_hashsize fc"
    and "length P mod fc_blocksize fc = 0"
  shows "\<exists>calls calls'.
           encrypt S fc (strm P 0 g) (sink [] []) = Some (Inr (), sink (artifact S fc P) calls)
         \<and> decrypt S fc (strm (artifact S fc P) 0 g') (sink [] []) =
             Some (Inl Engine_throws, sink P calls')"
proof -
  let ?B = "fc_blocksize fc"
  let ?Cs = "seal_blocks S fc (fc_nonce fc) (chunks ?B P)"
  have ldg: "length (generichash S (fc_hashkey fc) (fc_hashsize fc) (concat ?Cs)) = fc_hashsize fc"
    using assms(2) by (simp add: hash_ok_def)
  have a: "artifact S fc P = concat ?Cs @ generichash S (fc_hashkey fc) (fc_hashsize fc) (concat ?Cs)"
    by (simp add: artifact_def Let_def)
  have e: "\<exists>calls. encrypt S fc (strm P 0 g) (sink [] []) = Some (Inr (), sink (artifact S fc P) calls)"
    using encrypt_run[OF assms(1,5,6), of 0 P g "[]" "[]"] by (intro exI) simp
  have rej: "\<And>n. aead_decrypt S (fc_header fc) [] (fc_key fc) n = None"
    by (rule engine_rejects_empty[OF assms(3,4)])
  have "\<exists>calls'. decrypt S fc (strm (artifact S fc P) 0 g') (sink [] []) =
             Some (Inl Engine_throws, sink P calls')"
    using decrypt_blocks_digest[OF assms(1,5,6,7) ldg, of P 0 g' "[]" "[]", folded a] assms(8,9) rej
    by (intro exI) simp
  with e show ?thesis by blast
qed

theorem roundtrip_fails_on_whole_blocks_witness:
  "encrypt toy (toy_fc 16 32) (strm (replicate 16 7) 0 0) (sink [] []) =
     Some (Inr (), sink (artifact toy (toy_fc 16 32) (replicate 16 7)) [(replicate 16 7, 0)])
   \<and> length (artifact toy (toy_fc 16 32) (replicate 16 7)) = (16 + 16) + 32
   \<and> decrypt toy (toy_fc 16 32) (strm (artifact toy (toy_fc 16 32) (replicate 16 7)) 0 0)
        (sink [] []) =
     Some (Inl Engine_throws,
       sink (replicate 16 7) [(seal toy (toy_fc 16 32) 0 (replicate 16 7), 0), ([], 1)])"
proof -
  have m: "1 \<le> MACSIZE toy" by (simp add: toy_def)
  have k: "length (fc_key (toy_fc 16 32)) = KEYSIZE_AEAD toy" by (simp add: toy_fc_def toy_def)
  have b: "1 \<le> fc_blocksize (toy_fc 16 32)" by (simp add: toy_fc_def)
  have f: "fits_size_t toy (toy_fc 16 32)" by (simp add: toy_fc_fits)
  have h: "1 \<le> fc_hashsize (toy_fc 16 32)" by (simp add: toy_fc_def)
  have l: "length (replicate 16 (7 :: 8 word)) mod fc_blocksize (toy_fc 16 32) = 0"
    by (simp add: toy_fc_def)
  note T = roundtrip_fails_on_whole_blocks[OF toy_engine_ok toy_hash_ok toy_engine_rejects_short
      m k b f h l, of 0 0]
  have 1: "encrypt toy (toy_fc 16 32) (strm (replicate 16 7) 0 0) (sink [] []) =
     Some (Inr (), sink (artifact toy (toy_fc 16 32) (replicate 16 7)) [(replicate 16 7, 0)])"
    by code_simp
  have 2: "length (artifact toy (toy_fc 16 32) (replicate 16 7)) = (16 + 16) + 32"
    by code_simp
  have 3: "decrypt toy (toy_fc 16 32) (strm (artifact toy (toy_fc 16 32) (replicate 16 7)) 0 0)
        (sink [] []) =
     Some (Inl Engine_throws,
       sink (replicate 16 7) [(seal toy (toy_fc 16 32) 0 (replicate 16 7), 0), ([], 1)])"
    by code_simp
  from T 1 2 3 show ?thesis by blast
qed

text \<open>The round trip for a plaintext that ends in a partial block: \<open>decrypt\<close> of
  the artifact succeeds and the sink holds the plaintext.\<close>

lemma roundtrip_partial_final_block:
  assumes "engine_ok S" and "hash_ok S"
    and "length (fc_key fc) = KEYSIZE_AEAD S" and "1 \<le> fc_blocksize fc"
    and "fits_size_t S fc" and "length P mod fc_blocksize fc \<noteq> 0"
  shows "\<exists>calls calls'.
           encrypt S fc (strm P 0 g) (sink [] []) = Some (Inr (), sink (artifact S fc P) calls)
         \<and> decrypt S fc (strm (artifact S fc P) 0 g') (sink [] []) = Some (Inr (), sink P calls')"
proof -
  let ?B = "fc_blocksize fc"
  let ?Cs = "seal_blocks S fc (fc_nonce fc) (chunks ?B P)"
  have ldg: "length (generichash S (fc_hashkey fc) (fc_hashsize fc) (concat ?Cs)) = fc_hashsize fc"
    using assms(2) by (simp add: hash_ok_def)
  have a: "artifact S fc P = concat ?Cs @ generichash S (fc_hashkey fc) (fc_hashsize fc) (concat ?Cs)"
    by (simp add: artifact_def Let_def)
  have e: "\<exists>calls. encrypt S fc (strm P 0 g) (sink [] []) = Some (Inr (), sink (artifact S fc P) calls)"
    using encrypt_run[OF assms(1,3,4), of 0 P g "[]" "[]"] by (intro exI) simp
  have "\<exists>calls'. decrypt S fc (strm (artifact S fc P) 0 g') (sink [] []) =
             Some (Inr (), sink P calls')"
    using decrypt_blocks_digest[OF assms(1,3,4,5) ldg, of P 0 g' "[]" "[]", folded a] assms(6)
    by (intro exI) simp
  with e show ?thesis by blast
qed

end
